theory Spec2Isabelle
  imports Main "HOL-Library.Char_ord" "HOL-Library.List_Lexorder"
begin

section \<open>Strings and the library functions the parser calls\<close>

text \<open>
  A Go string is a sequence of bytes; \<^typ>\<open>string\<close> is a list of 8-bit characters, so
  \<^term>\<open>length\<close> and \<^term>\<open>nth\<close> are Go's \<^verbatim>\<open>len(s)\<close> and \<^verbatim>\<open>s[i]\<close>.
\<close>

abbreviation tab :: char where "tab \<equiv> CHR 0x09"
abbreviation newline :: char where "newline \<equiv> CHR 0x0A"
abbreviation vtab :: char where "vtab \<equiv> CHR 0x0B"
abbreviation formfeed :: char where "formfeed \<equiv> CHR 0x0C"
abbreviation cr :: char where "cr \<equiv> CHR 0x0D"
abbreviation space :: char where "space \<equiv> CHR 0x20"
abbreviation dquote :: char where "dquote \<equiv> CHR 0x22"
abbreviation hash :: char where "hash \<equiv> CHR 0x23"
abbreviation dollar :: char where "dollar \<equiv> CHR 0x24"
abbreviation squote :: char where "squote \<equiv> CHR 0x27"
abbreviation backslash :: char where "backslash \<equiv> CHR 0x5C"
abbreviation lbrace :: char where "lbrace \<equiv> CHR 0x7B"
abbreviation rbrace :: char where "rbrace \<equiv> CHR 0x7D"

subsection \<open>strings.TrimSpace\<close>

text \<open>
  \<^verbatim>\<open>strings.TrimSpace\<close> removes the leading and the trailing white space of a string,
  white space being the runes of \<^verbatim>\<open>unicode.IsSpace\<close>: the six ASCII characters
  tab, line feed, vertical tab, form feed, carriage return and space, then U+0085, U+00A0,
  U+1680, U+2000 to U+200A, U+2028, U+2029, U+202F, U+205F and U+3000. A byte that does
  not start a well-formed UTF-8 sequence decodes to U+FFFD, which is no white space, so
  on the bytes of the string the function removes the UTF-8 encodings of these runes from
  both ends.
\<close>

definition asciiSpace :: "char \<Rightarrow> bool" where
  "asciiSpace c \<longleftrightarrow> c = tab \<or> c = newline \<or> c = vtab \<or> c = formfeed \<or> c = cr \<or> c = space"

definition unicodeSpace2 :: "string \<Rightarrow> bool" where
  "unicodeSpace2 s \<longleftrightarrow> s = [CHR 0xC2, CHR 0x85] \<or> s = [CHR 0xC2, CHR 0xA0]"

definition unicodeSpace3 :: "string \<Rightarrow> bool" where
  "unicodeSpace3 s \<longleftrightarrow>
     s = [CHR 0xE1, CHR 0x9A, CHR 0x80] \<or>
     (length s = 3 \<and> s ! 0 = CHR 0xE2 \<and> s ! 1 = CHR 0x80 \<and>
      ((CHR 0x80 \<le> s ! 2 \<and> s ! 2 \<le> CHR 0x8A) \<or>
       s ! 2 = CHR 0xA8 \<or> s ! 2 = CHR 0xA9 \<or> s ! 2 = CHR 0xAF)) \<or>
     s = [CHR 0xE2, CHR 0x81, CHR 0x9F] \<or>
     s = [CHR 0xE3, CHR 0x80, CHR 0x80]"

text \<open>The number of bytes of the white-space rune a string starts with, 0 if it starts with none.\<close>

definition spaceWidth :: "string \<Rightarrow> nat" where
  "spaceWidth s =
     (if s = [] then 0
      else if asciiSpace (hd s) then 1
      else if unicodeSpace2 (take 2 s) then 2
      else if unicodeSpace3 (take 3 s) then 3
      else 0)"

text \<open>The same for the rune a string ends with.\<close>

definition spaceWidthEnd :: "string \<Rightarrow> nat" where
  "spaceWidthEnd s =
     (if s = [] then 0
      else if asciiSpace (last s) then 1
      else if unicodeSpace2 (drop (length s - 2) s) then 2
      else if unicodeSpace3 (drop (length s - 3) s) then 3
      else 0)"

function trimLeft :: "string \<Rightarrow> string" where
  "trimLeft s = (if spaceWidth s = 0 then s else trimLeft (drop (spaceWidth s) s))"
  by pat_completeness auto
termination
proof (relation "measure length")
  fix s :: string
  assume "spaceWidth s \<noteq> 0"
  moreover have "spaceWidth s \<le> length s"
    by (auto simp: spaceWidth_def unicodeSpace2_def unicodeSpace3_def Suc_le_eq
        dest!: arg_cong [where f = length])
  ultimately show "(drop (spaceWidth s) s, s) \<in> measure length" by simp
qed simp

function trimRight :: "string \<Rightarrow> string" where
  "trimRight s =
     (if spaceWidthEnd s = 0 then s else trimRight (take (length s - spaceWidthEnd s) s))"
  by pat_completeness auto
termination
proof (relation "measure length")
  fix s :: string
  assume "spaceWidthEnd s \<noteq> 0"
  moreover have "spaceWidthEnd s \<le> length s"
    by (auto simp: spaceWidthEnd_def unicodeSpace2_def unicodeSpace3_def Suc_le_eq
        dest!: arg_cong [where f = length])
  ultimately show "(take (length s - spaceWidthEnd s) s, s) \<in> measure length" by simp
qed simp

declare trimLeft.simps [simp del] trimRight.simps [simp del]

definition TrimSpace :: "string \<Rightarrow> string" where
  "TrimSpace s = trimRight (trimLeft s)"

definition HasPrefix :: "string \<Rightarrow> string \<Rightarrow> bool" where
  "HasPrefix s p \<longleftrightarrow> take (length p) s = p"

definition HasSuffix :: "string \<Rightarrow> string \<Rightarrow> bool" where
  "HasSuffix s p \<longleftrightarrow> length p \<le> length s \<and> drop (length s - length p) s = p"

subsection \<open>bufio.Scanner over the input\<close>

text \<open>
  \<^verbatim>\<open>bufio.NewScanner\<close> splits the input with \<^verbatim>\<open>bufio.ScanLines\<close>: each token is one line
  without its line feed, a last line with no line feed is a token too, an empty last line
  is none, and one trailing carriage return is dropped from a token. The scanner's buffer
  grows to \<^verbatim>\<open>bufio.MaxScanTokenSize\<close> (64 KiB) at most: at a line of that many bytes or
  more, \<^verbatim>\<open>Scan\<close> returns false and \<^verbatim>\<open>Err\<close> returns \<^verbatim>\<open>bufio.ErrTooLong\<close>; the lines before it
  have been delivered. Reading from a string has no other error.
\<close>

datatype error =
    ErrTooLong
  | InvalidLineFormat string
  | ParseErrorOnLine nat error
  | ErrorReadingInput error

definition MaxScanTokenSize :: nat where
  "MaxScanTokenSize = 64 * 1024"

function rawLines :: "string \<Rightarrow> string list" where
  "rawLines s =
     (if s = [] then []
      else takeWhile (\<lambda>c. c \<noteq> newline) s # rawLines (drop 1 (dropWhile (\<lambda>c. c \<noteq> newline) s)))"
  by pat_completeness auto
termination
proof (relation "measure length")
  fix s :: string
  assume "s \<noteq> []"
  then show "(drop 1 (dropWhile (\<lambda>c. c \<noteq> newline) s), s) \<in> measure length"
    by (cases s) (auto simp: less_Suc_eq_le length_dropWhile_le intro: le_trans [OF diff_le_self])
qed simp

declare rawLines.simps [simp del]

definition dropCR :: "string \<Rightarrow> string" where
  "dropCR l = (if l \<noteq> [] \<and> last l = cr then butlast l else l)"

text \<open>
  What a scanner delivers: the tokens of the successful calls of \<^verbatim>\<open>Scan\<close>, then the value
  of \<^verbatim>\<open>Err\<close> (\<^term>\<open>None\<close> for \<^verbatim>\<open>nil\<close>).
\<close>

fun scanTokens :: "string list \<Rightarrow> string list \<times> error option" where
  "scanTokens [] = ([], None)"
| "scanTokens (l # ls) =
     (if MaxScanTokenSize \<le> length l then ([], Some ErrTooLong)
      else (dropCR l # fst (scanTokens ls), snd (scanTokens ls)))"

definition NewScanner :: "string \<Rightarrow> string list \<times> error option" where
  "NewScanner data = scanTokens (rawLines data)"

subsection \<open>The regular expressions\<close>

text \<open>
  The three patterns of \<^verbatim>\<open>parser.go\<close>, each as the function that Go's leftmost-first
  matching computes for it. \<^verbatim>\<open>\s\<close> is the class \<^verbatim>\<open>[\t\n\f\r ]\<close>; \<^verbatim>\<open>.\<close> is any character but
  a line feed; \<^verbatim>\<open>$\<close> is the end of the text.
\<close>

definition reSpace :: "char \<Rightarrow> bool" where
  "reSpace c \<longleftrightarrow> c = tab \<or> c = newline \<or> c = formfeed \<or> c = cr \<or> c = space"

definition isAlpha :: "char \<Rightarrow> bool" where
  "isAlpha c \<longleftrightarrow> (CHR ''A'' \<le> c \<and> c \<le> CHR ''Z'') \<or> (CHR ''a'' \<le> c \<and> c \<le> CHR ''z'')"

definition isDigit :: "char \<Rightarrow> bool" where
  "isDigit c \<longleftrightarrow> CHR ''0'' \<le> c \<and> c \<le> CHR ''9''"

definition identStart :: "char \<Rightarrow> bool" where
  "identStart c \<longleftrightarrow> isAlpha c \<or> c = CHR ''_''"

definition identChar :: "char \<Rightarrow> bool" where
  "identChar c \<longleftrightarrow> isAlpha c \<or> isDigit c \<or> c = CHR ''_''"

text \<open>The identifier grammar \<^verbatim>\<open>[A-Za-z_][A-Za-z0-9_]*\<close> on a whole string.\<close>

definition isIdentifier :: "string \<Rightarrow> bool" where
  "isIdentifier s \<longleftrightarrow> s \<noteq> [] \<and> identStart (hd s) \<and> list_all identChar s"

text \<open>
  The common tail \<^verbatim>\<open>([A-Za-z_][A-Za-z0-9_]*)\s*[=:]\s*(.*)$\<close> of the two line patterns,
  matched at the start of a string: the two groups, or \<^term>\<open>None\<close> for no match. Every
  starred item is greedy and followed by an item that cannot start with what it repeats,
  except the last \<^verbatim>\<open>\s*\<close>, which takes all the white space before the value by preference.
\<close>

definition assignMatch :: "string \<Rightarrow> (string \<times> string) option" where
  "assignMatch s =
     (if s = [] \<or> \<not> identStart (hd s) then None
      else
        let key = takeWhile identChar s;
            r = dropWhile reSpace (dropWhile identChar s)
        in if r = [] \<or> \<not> (hd r = CHR ''='' \<or> hd r = CHR '':'') then None
           else
             let v = dropWhile reSpace (tl r)
             in if newline \<in> set v then None else Some (key, v))"

text \<open>\<^verbatim>\<open>lineRegex = ^\s*([A-Za-z_][A-Za-z0-9_]*)\s*[=:]\s*(.*)$\<close>\<close>

definition lineRegex :: "string \<Rightarrow> (string \<times> string) option" where
  "lineRegex s = assignMatch (dropWhile reSpace s)"

text \<open>\<^verbatim>\<open>exportRegex = ^\s*export\s+([A-Za-z_][A-Za-z0-9_]*)\s*[=:]\s*(.*)$\<close>\<close>

definition exportRegex :: "string \<Rightarrow> (string \<times> string) option" where
  "exportRegex s =
     (let r = dropWhile reSpace s
      in if take 6 r = ''export'' \<and> drop 6 r \<noteq> [] \<and> reSpace (hd (drop 6 r))
         then assignMatch (dropWhile reSpace (drop 6 r))
         else None)"

text \<open>
  \<^verbatim>\<open>expandVarRegex = \$\{([^}]+)\}|\$([A-Za-z_][A-Za-z0-9_]*)\<close>, matched at the start of
  a string: the length of the match, or \<^term>\<open>None\<close>. The first alternative needs a brace
  after the dollar sign and the second one a letter or an underscore, so at most one of
  them applies.
\<close>

definition expandVarMatch :: "string \<Rightarrow> nat option" where
  "expandVarMatch s =
     (if s = [] \<or> hd s \<noteq> dollar then None
      else if tl s \<noteq> [] \<and> hd (tl s) = lbrace then
        (let inner = takeWhile (\<lambda>c. c \<noteq> rbrace) (drop 2 s)
         in if inner \<noteq> [] \<and> length inner + 2 < length s then Some (length inner + 3) else None)
      else if tl s \<noteq> [] \<and> identStart (hd (tl s)) then
        Some (1 + length (takeWhile identChar (tl s)))
      else None)"

text \<open>
  \<^verbatim>\<open>ReplaceAllStringFunc\<close> for this pattern: the matches are found from left to right,
  each search starting where the match before ended; a match is replaced by the callback's
  result and the text between matches is kept.
\<close>

function ReplaceAllStringFunc :: "string \<Rightarrow> (string \<Rightarrow> string) \<Rightarrow> string" where
  "ReplaceAllStringFunc s repl =
     (if s = [] then []
      else case expandVarMatch s of
             Some n \<Rightarrow> repl (take n s) @ ReplaceAllStringFunc (drop n s) repl
           | None \<Rightarrow> hd s # ReplaceAllStringFunc (tl s) repl)"
  by pat_completeness auto
termination
proof (relation "measure (\<lambda>(s, repl). length s)")
  fix s :: string and repl :: "string \<Rightarrow> string" and n
  assume "s \<noteq> []" "expandVarMatch s = Some n"
  then have "0 < n"
    by (auto simp: expandVarMatch_def Let_def split: if_splits)
  with \<open>s \<noteq> []\<close> show "((drop n s, repl), (s, repl)) \<in> measure (\<lambda>(s, repl). length s)"
    by simp
qed auto

declare ReplaceAllStringFunc.simps [simp del]

section \<open>The parser (parser.go)\<close>

text \<open>
  The process environment is a parameter \<open>osenv\<close> of the model: \<open>osenv name\<close> is the result
  of \<^verbatim>\<open>os.LookupEnv(name)\<close>, \<^term>\<open>None\<close> when the variable is not set.
\<close>

type_synonym env = "string \<rightharpoonup> string"

record Parser =
  expandVars :: bool
  env :: env

definition NewParser :: Parser where
  "NewParser = \<lparr>expandVars = True, env = Map.empty\<rparr>"

definition NewParserWithOptions :: "bool \<Rightarrow> Parser" where
  "NewParserWithOptions expand = \<lparr>expandVars = expand, env = Map.empty\<rparr>"

subsection \<open>removeInlineComment\<close>

text \<open>
  The loop over the indices of the line, with the two variables \<^verbatim>\<open>inQuotes\<close> and
  \<^verbatim>\<open>quoteChar\<close>; the \<^verbatim>\<open>return\<close> inside the loop ends it.
\<close>

function removeInlineCommentLoop :: "string \<Rightarrow> nat \<Rightarrow> bool \<Rightarrow> char \<Rightarrow> string" where
  "removeInlineCommentLoop line i inQuotes quoteChar =
     (if i < length line then
        (let char = line ! i
         in if \<not> inQuotes then
              (if char = dquote \<or> char = squote then removeInlineCommentLoop line (i + 1) True char
               else if char = hash then TrimSpace (take i line)
               else removeInlineCommentLoop line (i + 1) inQuotes quoteChar)
            else
              (if char = quoteChar then
                 (if 0 < i \<and> line ! (i - 1) \<noteq> backslash
                  then removeInlineCommentLoop line (i + 1) False (CHR 0x00)
                  else removeInlineCommentLoop line (i + 1) inQuotes quoteChar)
               else removeInlineCommentLoop line (i + 1) inQuotes quoteChar))
      else line)"
  by pat_completeness auto
termination
  by (relation "measure (\<lambda>(line, i, inQuotes, quoteChar). length line - i)") auto

declare removeInlineCommentLoop.simps [simp del]

definition removeInlineComment :: "string \<Rightarrow> string" where
  "removeInlineComment line = removeInlineCommentLoop line 0 False (CHR 0x00)"

subsection \<open>unescapeDoubleQuoted\<close>

text \<open>The bytes the \<^verbatim>\<open>switch\<close> writes for the character after a backslash.\<close>

definition unescapeSwitch :: "char \<Rightarrow> string" where
  "unescapeSwitch next =
     (if next = CHR ''n'' then [newline]
      else if next = CHR ''r'' then [cr]
      else if next = CHR ''t'' then [tab]
      else if next = backslash then [backslash]
      else if next = dquote then [dquote]
      else if next = squote then [squote]
      else [backslash, next])"

function unescapeDoubleQuotedLoop :: "string \<Rightarrow> nat \<Rightarrow> string \<Rightarrow> string" where
  "unescapeDoubleQuotedLoop val i result =
     (if i < length val then
        (if val ! i = backslash \<and> i + 1 < length val
         then unescapeDoubleQuotedLoop val (i + 1 + 1) (result @ unescapeSwitch (val ! (i + 1)))
         else unescapeDoubleQuotedLoop val (i + 1) (result @ [val ! i]))
      else result)"
  by pat_completeness auto
termination
  by (relation "measure (\<lambda>(val, i, result). length val - i)") auto

declare unescapeDoubleQuotedLoop.simps [simp del]

definition unescapeDoubleQuoted :: "string \<Rightarrow> string" where
  "unescapeDoubleQuoted val = unescapeDoubleQuotedLoop val 0 []"

subsection \<open>parseValue\<close>

text \<open>The slice \<^verbatim>\<open>s[i:j]\<close>, for \<open>i \<le> j \<le> len(s)\<close>.\<close>

definition slice :: "string \<Rightarrow> nat \<Rightarrow> nat \<Rightarrow> string" where
  "slice s i j = drop i (take j s)"

definition parseValue :: "string \<Rightarrow> error + string" where
  "parseValue val0 =
     (let val = TrimSpace val0
      in if val = [] then Inr []
         else if 2 \<le> length val \<and>
                 ((val ! 0 = dquote \<and> val ! (length val - 1) = dquote) \<or>
                  (val ! 0 = squote \<and> val ! (length val - 1) = squote))
         then
           (let quote = val ! 0;
                inner = slice val 1 (length val - 1)
            in if quote = dquote then Inr (unescapeDoubleQuoted inner) else Inr inner)
         else Inr (TrimSpace val))"

subsection \<open>parseLine\<close>

text \<open>
  The result is the error, or the key and the value; an empty key with no error is the
  line that holds nothing after its comment is removed.
\<close>

definition parseLine :: "string \<Rightarrow> error + (string \<times> string)" where
  "parseLine line0 =
     (let line = removeInlineComment line0
      in case exportRegex line of
           Some (key, val) \<Rightarrow>
             (case parseValue (TrimSpace val) of
                Inl err \<Rightarrow> Inl err
              | Inr parsedValue \<Rightarrow> Inr (key, parsedValue))
         | None \<Rightarrow>
             (case lineRegex line of
                Some (key, val) \<Rightarrow>
                  (case parseValue (TrimSpace val) of
                     Inl err \<Rightarrow> Inl err
                   | Inr parsedValue \<Rightarrow> Inr (key, parsedValue))
              | None \<Rightarrow>
                  if TrimSpace line \<noteq> [] then Inl (InvalidLineFormat line)
                  else Inr ([], [])))"

subsection \<open>expandVariables\<close>

text \<open>
  The callback given to \<^verbatim>\<open>ReplaceAllStringFunc\<close>; \<open>vars\<close> is the parameter \<^verbatim>\<open>env\<close> of
  \<^verbatim>\<open>expandVariables\<close>, the map of the entries parsed so far.
\<close>

definition expandMatch :: "(string \<rightharpoonup> string) \<Rightarrow> env \<Rightarrow> string \<Rightarrow> string" where
  "expandMatch osenv vars match =
     (let varName =
            (if HasPrefix match [dollar, lbrace] \<and> HasSuffix match [rbrace]
             then slice match 2 (length match - 1)
             else if HasPrefix match [dollar] then drop 1 match
             else [])
      in case vars varName of
           Some val \<Rightarrow> val
         | None \<Rightarrow>
             (case osenv varName of
                Some val \<Rightarrow> val
              | None \<Rightarrow> []))"

definition expandVariables :: "(string \<rightharpoonup> string) \<Rightarrow> string \<Rightarrow> env \<Rightarrow> string" where
  "expandVariables osenv val vars = ReplaceAllStringFunc val (expandMatch osenv vars)"

subsection \<open>Parse\<close>

text \<open>
  The body of the \<^verbatim>\<open>for scanner.Scan()\<close> loop, over the tokens that are left, with the
  line counter and the result map as they are before the next line.
\<close>

fun parseLoop ::
  "Parser \<Rightarrow> (string \<rightharpoonup> string) \<Rightarrow> nat \<Rightarrow> env \<Rightarrow> string list \<Rightarrow> error + env" where
  "parseLoop p osenv lineNumber result [] = Inr result"
| "parseLoop p osenv lineNumber result (text # rest) =
     (let lineNumber = lineNumber + 1;
          line = TrimSpace text
      in if line = [] \<or> HasPrefix line [hash] then parseLoop p osenv lineNumber result rest
         else case parseLine line of
                Inl err \<Rightarrow> Inl (ParseErrorOnLine lineNumber err)
              | Inr (key, val) \<Rightarrow>
                  if key \<noteq> [] then
                    (let val = (if expandVars p then expandVariables osenv val result else val)
                     in parseLoop p osenv lineNumber (result(key \<mapsto> val)) rest)
                  else parseLoop p osenv lineNumber result rest)"

declare parseLoop.simps [simp del]

text \<open>
  \<^verbatim>\<open>Parse\<close> on what the scanner delivers from the reader. \<^term>\<open>Inl\<close> is the return of
  \<^verbatim>\<open>nil\<close> and the error, \<^term>\<open>Inr\<close> the return of the map and \<^verbatim>\<open>nil\<close>. The field \<^verbatim>\<open>p.env\<close>
  is set to the result map and not read again.
\<close>

definition Parse ::
  "Parser \<Rightarrow> (string \<rightharpoonup> string) \<Rightarrow> string list \<times> error option \<Rightarrow> error + env" where
  "Parse p osenv scanner =
     (case parseLoop p osenv 0 Map.empty (fst scanner) of
        Inl err \<Rightarrow> Inl err
      | Inr result \<Rightarrow>
          (case snd scanner of
             Some err \<Rightarrow> Inl (ErrorReadingInput err)
           | None \<Rightarrow> Inr result))"

text \<open>The package-level \<^verbatim>\<open>Parse\<close> on a \<^verbatim>\<open>strings.NewReader(data)\<close>, which is \<^verbatim>\<open>Unmarshal\<close>.\<close>

definition Unmarshal :: "(string \<rightharpoonup> string) \<Rightarrow> string \<Rightarrow> error + env" where
  "Unmarshal osenv data = Parse NewParser osenv (NewScanner data)"

section \<open>The encoder\<close>

text \<open>
  \<^verbatim>\<open>strings.ReplaceAll\<close> for a pattern of one byte, which is what every call of
  \<^verbatim>\<open>escapeValue\<close> has, and \<^verbatim>\<open>strings.Join\<close>.
\<close>

fun ReplaceAll :: "string \<Rightarrow> char \<Rightarrow> string \<Rightarrow> string" where
  "ReplaceAll [] old new = []"
| "ReplaceAll (c # s) old new =
     (if c = old then new @ ReplaceAll s old new else c # ReplaceAll s old new)"

fun Join :: "string list \<Rightarrow> string \<Rightarrow> string" where
  "Join [] sep = []"
| "Join [l] sep = l"
| "Join (l # ls) sep = l @ sep @ Join ls sep"

definition escapeValue :: "string \<Rightarrow> string" where
  "escapeValue v0 =
     (let v1 = ReplaceAll v0 backslash [backslash, backslash];
          v2 = ReplaceAll v1 dquote [backslash, dquote];
          v3 = ReplaceAll v2 newline [backslash, CHR ''n''];
          v4 = ReplaceAll v3 cr [backslash, CHR ''r''];
          v5 = ReplaceAll v4 tab [backslash, CHR ''t'']
      in v5)"

text \<open>
  The cases of the \<^verbatim>\<open>switch\<close> in \<^verbatim>\<open>needsQuoting\<close>. The loop ranges over the runes of the
  value; each of the nine characters is one ASCII byte, and a byte below 0x80 is always a
  rune of its own, so the loop is a loop over the bytes.
\<close>

definition quoteTrigger :: "char \<Rightarrow> bool" where
  "quoteTrigger c \<longleftrightarrow>
     c = space \<or> c = tab \<or> c = newline \<or> c = cr \<or> c = dquote \<or> c = squote \<or>
     c = backslash \<or> c = hash \<or> c = dollar"

fun needsQuotingLoop :: "string \<Rightarrow> bool" where
  "needsQuotingLoop [] = False"
| "needsQuotingLoop (c # s) = (if quoteTrigger c then True else needsQuotingLoop s)"

definition needsQuoting :: "string \<Rightarrow> bool" where
  "needsQuoting v = (if v = [] then True else needsQuotingLoop v)"

definition formatEnvLine :: "string \<Rightarrow> string \<Rightarrow> string" where
  "formatEnvLine key v =
     (if \<not> needsQuoting v then key @ ''='' @ v
      else key @ ''='' @ [dquote] @ escapeValue v @ [dquote])"

text \<open>
  \<^verbatim>\<open>Marshal\<close>: the keys of the map, sorted by \<^verbatim>\<open>sort.Strings\<close> (the order of Go's \<^verbatim>\<open><\<close> on
  strings, byte by byte), one line for each. The error of the result is always \<^verbatim>\<open>nil\<close>.
\<close>

definition Marshal :: "env \<Rightarrow> error + string" where
  "Marshal m =
     (if dom m = {} then Inr []
      else
        let keys = sorted_list_of_set (dom m);
            lines = map (\<lambda>key. formatEnvLine key (the (m key))) keys
        in Inr (Join lines [newline]))"

section \<open>The specification's notions\<close>

text \<open>Bytes below 0x80 are the ASCII characters.\<close>

definition isAscii :: "char \<Rightarrow> bool" where
  "isAscii c \<longleftrightarrow> c < CHR 0x80"

subsection \<open>Escape decoding, as the specification words it\<close>

text \<open>
  A scan from left to right: a backslash with a character after it is decoded with that
  character, any other character is copied, and so is a backslash that ends the text.
\<close>

fun escapeDecode :: "string \<Rightarrow> string" where
  "escapeDecode [] = []"
| "escapeDecode [c] = [c]"
| "escapeDecode (c # d # rest) =
     (if c = backslash then
        (if d = CHR ''n'' then newline # escapeDecode rest
         else if d = CHR ''r'' then cr # escapeDecode rest
         else if d = CHR ''t'' then tab # escapeDecode rest
         else if d = backslash then backslash # escapeDecode rest
         else if d = dquote then dquote # escapeDecode rest
         else if d = squote then squote # escapeDecode rest
         else backslash # d # escapeDecode rest)
      else c # escapeDecode (d # rest))"

subsection \<open>The quote machine of comment stripping, as the specification words it\<close>

datatype quoteState = Unquoted | Quoted char

text \<open>One step of the machine on the character \<open>c\<close>, \<open>prev\<close> being the character before it.\<close>

fun quoteStep :: "quoteState \<Rightarrow> char \<Rightarrow> char \<Rightarrow> quoteState" where
  "quoteStep Unquoted prev c = (if c = squote \<or> c = dquote then Quoted c else Unquoted)"
| "quoteStep (Quoted q) prev c = (if c = q \<and> prev \<noteq> backslash then Unquoted else Quoted q)"

text \<open>The state of the machine after a text in which no comment starts.\<close>

fun quoteRun :: "quoteState \<Rightarrow> char \<Rightarrow> string \<Rightarrow> quoteState" where
  "quoteRun st prev [] = st"
| "quoteRun st prev (c # cs) = quoteRun (quoteStep st prev c) c cs"

text \<open>
  The index of the first \<^verbatim>\<open>#\<close> that the machine meets in the unquoted state, if there is
  one.
\<close>

fun commentIndex :: "quoteState \<Rightarrow> char \<Rightarrow> string \<Rightarrow> nat option" where
  "commentIndex st prev [] = None"
| "commentIndex st prev (c # cs) =
     (if st = Unquoted \<and> c = hash then Some 0
      else map_option Suc (commentIndex (quoteStep st prev c) c cs))"

subsection \<open>Variable references\<close>

text \<open>
  The value of a reference to \<open>name\<close>: the entry of the result map, else the process
  environment, else the empty string.
\<close>

definition resolve :: "(string \<rightharpoonup> string) \<Rightarrow> env \<Rightarrow> string \<Rightarrow> string" where
  "resolve osenv vars name =
     (case vars name of
        Some v \<Rightarrow> v
      | None \<Rightarrow> (case osenv name of Some v \<Rightarrow> v | None \<Rightarrow> []))"

subsection \<open>Malformed lines\<close>

text \<open>
  A physical line is malformed when, trimmed and with its comment removed, it is not empty
  and matches neither the export form nor the generic form.
\<close>

definition malformed :: "string \<Rightarrow> bool" where
  "malformed text \<longleftrightarrow>
     (let line = removeInlineComment (TrimSpace text)
      in TrimSpace line \<noteq> [] \<and> exportRegex line = None \<and> lineRegex line = None)"

subsection \<open>The encoding of one entry, as the specification words it\<close>

definition escapeChar :: "char \<Rightarrow> string" where
  "escapeChar c =
     (if c = backslash then [backslash, backslash]
      else if c = dquote then [backslash, dquote]
      else if c = newline then [backslash, CHR ''n'']
      else if c = cr then [backslash, CHR ''r'']
      else if c = tab then [backslash, CHR ''t'']
      else [c])"

definition plainValue :: "string \<Rightarrow> bool" where
  "plainValue v \<longleftrightarrow> list_all (\<lambda>c. \<not> quoteTrigger c) v"

definition encodeEntry :: "string \<Rightarrow> string \<Rightarrow> string" where
  "encodeEntry key v =
     (if v \<noteq> [] \<and> plainValue v then key @ ''='' @ v
      else key @ ''='' @ [dquote] @ concat (map escapeChar v) @ [dquote])"

subsection \<open>The loop variables of removeInlineComment as a state of the machine\<close>

definition loopState :: "bool \<Rightarrow> char \<Rightarrow> quoteState" where
  "loopState inQuotes quoteChar = (if inQuotes then Quoted quoteChar else Unquoted)"

definition charBefore :: "string \<Rightarrow> nat \<Rightarrow> char" where
  "charBefore line i = (if i = 0 then CHR 0x00 else line ! (i - 1))"

subsection \<open>One iteration of the loop of Parse\<close>

text \<open>
  What one iteration does to the result map, for the line that follows \<open>lineNumber\<close> lines:
  the body of the loop of \<open>parseLoop\<close> without the recursive call.
\<close>

definition lineStep ::
  "Parser \<Rightarrow> (string \<rightharpoonup> string) \<Rightarrow> nat \<Rightarrow> env \<Rightarrow> string \<Rightarrow> error + env" where
  "lineStep p osenv lineNumber result tok =
     (let line = TrimSpace tok
      in if line = [] \<or> HasPrefix line [hash] then Inr result
         else case parseLine line of
                Inl err \<Rightarrow> Inl (ParseErrorOnLine (lineNumber + 1) err)
              | Inr (key, val) \<Rightarrow>
                  if key \<noteq> [] then
                    Inr (result(key \<mapsto>
                      (if expandVars p then expandVariables osenv val result else val)))
                  else Inr result)"

section \<open>Facts about the library functions\<close>

lemma trimLeft_id: "spaceWidth s = 0 \<Longrightarrow> trimLeft s = s"
  by (simp add: trimLeft.simps)

lemma trimRight_id: "spaceWidthEnd s = 0 \<Longrightarrow> trimRight s = s"
  by (simp add: trimRight.simps)

lemma TrimSpace_id: "spaceWidth s = 0 \<Longrightarrow> spaceWidthEnd s = 0 \<Longrightarrow> TrimSpace s = s"
  by (simp add: TrimSpace_def trimLeft_id trimRight_id)

lemma TrimSpace_Nil [simp]: "TrimSpace [] = []"
  by (simp add: TrimSpace_id spaceWidth_def spaceWidthEnd_def)

lemma unicodeSpace2_hd: "unicodeSpace2 t \<Longrightarrow> \<not> isAscii (hd t)"
  by (auto simp: unicodeSpace2_def isAscii_def)

lemma unicodeSpace3_hd: "unicodeSpace3 t \<Longrightarrow> \<not> isAscii (hd t)"
  by (cases t) (auto simp: unicodeSpace3_def isAscii_def)

lemma unicodeSpace2_last: "unicodeSpace2 t \<Longrightarrow> \<not> isAscii (last t)"
  by (auto simp: unicodeSpace2_def isAscii_def)

lemma unicodeSpace3_last: "unicodeSpace3 t \<Longrightarrow> \<not> isAscii (last t)"
  by (auto simp: unicodeSpace3_def isAscii_def length_Suc_conv numeral_3_eq_3
        less_eq_char_def less_char_def)

lemma hd_take_pos: "0 < n \<Longrightarrow> hd (take n s) = hd s"
  by (cases s; cases n) auto

lemma last_drop_sub: "s \<noteq> [] \<Longrightarrow> 0 < n \<Longrightarrow> last (drop (length s - n) s) = last s"
  by simp

lemma spaceWidth_ascii:
  "s \<noteq> [] \<Longrightarrow> isAscii (hd s) \<Longrightarrow> \<not> asciiSpace (hd s) \<Longrightarrow> spaceWidth s = 0"
  using unicodeSpace2_hd [of "take 2 s"] unicodeSpace3_hd [of "take 3 s"]
  by (auto simp: spaceWidth_def hd_take_pos)

lemma spaceWidthEnd_ascii:
  "s \<noteq> [] \<Longrightarrow> isAscii (last s) \<Longrightarrow> \<not> asciiSpace (last s) \<Longrightarrow> spaceWidthEnd s = 0"
  using unicodeSpace2_last [of "drop (length s - 2) s"]
    unicodeSpace3_last [of "drop (length s - 3) s"]
  by (auto simp: spaceWidthEnd_def last_drop_sub)

lemma TrimSpace_ascii_ends:
  "s \<noteq> [] \<Longrightarrow> isAscii (hd s) \<Longrightarrow> \<not> asciiSpace (hd s) \<Longrightarrow>
   isAscii (last s) \<Longrightarrow> \<not> asciiSpace (last s) \<Longrightarrow> TrimSpace s = s"
  by (simp add: TrimSpace_id spaceWidth_ascii spaceWidthEnd_ascii)

section \<open>Escape decoding\<close>

lemma escapeDecode_plain:
  "c \<noteq> backslash \<or> rest = [] \<Longrightarrow> escapeDecode (c # rest) = c # escapeDecode rest"
  by (cases rest) auto

lemma unescapeLoop_escapeDecode:
  "unescapeDoubleQuotedLoop val i result = result @ escapeDecode (drop i val)"
proof (induction val i result rule: unescapeDoubleQuotedLoop.induct)
  case (1 val i result)
  show ?case
  proof (cases "i < length val")
    case False
    then show ?thesis by (simp add: unescapeDoubleQuotedLoop.simps [of val i])
  next
    case True
    note lt = this
    show ?thesis
    proof (cases "val ! i = backslash \<and> i + 1 < length val")
      case True
      then have d: "drop i val = backslash # val ! (i + 1) # drop (i + 1 + 1) val"
        using lt by (metis Cons_nth_drop_Suc Suc_eq_plus1)
      have "unescapeDoubleQuotedLoop val i result =
            unescapeDoubleQuotedLoop val (i + 1 + 1) (result @ unescapeSwitch (val ! (i + 1)))"
        using True lt by (subst unescapeDoubleQuotedLoop.simps) simp
      also have "\<dots> = (result @ unescapeSwitch (val ! (i + 1))) @ escapeDecode (drop (i + 1 + 1) val)"
        by (rule "1.IH"(1) [OF lt True])
      also have "\<dots> = result @ escapeDecode (backslash # val ! (i + 1) # drop (i + 1 + 1) val)"
        by (simp add: unescapeSwitch_def)
      finally show ?thesis by (simp only: d)
    next
      case False
      have d: "drop i val = val ! i # drop (i + 1) val"
        using lt by (simp add: Cons_nth_drop_Suc)
      have "val ! i \<noteq> backslash \<or> drop (i + 1) val = []"
        using False by auto
      then have e: "escapeDecode (val ! i # drop (i + 1) val) = val ! i # escapeDecode (drop (i + 1) val)"
        by (rule escapeDecode_plain)
      have "unescapeDoubleQuotedLoop val i result =
            unescapeDoubleQuotedLoop val (i + 1) (result @ [val ! i])"
        using False lt by (subst unescapeDoubleQuotedLoop.simps) auto
      also have "\<dots> = (result @ [val ! i]) @ escapeDecode (drop (i + 1) val)"
        by (rule "1.IH"(2) [OF lt False])
      finally show ?thesis by (simp only: d e) simp
    qed
  qed
qed

lemma unescapeDoubleQuoted_escapeDecode: "unescapeDoubleQuoted val = escapeDecode val"
  by (simp add: unescapeDoubleQuoted_def unescapeLoop_escapeDecode)

lemma parseValue_quoted:
  assumes "2 \<le> length raw" and "hd raw = q" and "last raw = q" and "q = dquote \<or> q = squote"
  shows "parseValue raw =
         Inr (if q = dquote then unescapeDoubleQuoted (butlast (tl raw)) else butlast (tl raw))"
proof -
  from assms(1) have ne: "raw \<noteq> []" by auto
  have asc: "isAscii q" "\<not> asciiSpace q"
    using assms(4) by (auto simp: isAscii_def asciiSpace_def)
  have trim: "TrimSpace raw = raw"
    using ne asc assms(2,3) by (simp add: TrimSpace_ascii_ends)
  have h: "raw ! 0 = q" using ne assms(2) by (simp add: hd_conv_nth)
  have l: "raw ! (length raw - Suc 0) = q" using ne assms(3) by (simp add: last_conv_nth)
  have inner: "slice raw (Suc 0) (length raw - Suc 0) = butlast (tl raw)"
    by (simp add: slice_def butlast_conv_take drop_Suc drop_take tl_take)
  show ?thesis
    using assms(1,4) ne
    by (auto simp: parseValue_def trim h l inner Let_def)
qed

text \<open>
  C7. The value decoder on a raw value of two characters or more that starts and ends with
  the same quote character: between double quotes the inner text is decoded from left to
  right, a backslash followed by n, r, t, backslash, double quote or single quote giving
  the character it stands for, a backslash followed by anything else staying with that
  character, and a backslash that ends the text staying a backslash; between single quotes
  the inner text is returned as it is.
\<close>

theorem C7_value_decoder_escape_contract:
  assumes "2 \<le> length raw" and "hd raw = q" and "last raw = q" and "q = dquote \<or> q = squote"
  shows "parseValue raw =
         Inr (if q = dquote then escapeDecode (butlast (tl raw)) else butlast (tl raw))"
  using parseValue_quoted [OF assms] by (simp add: unescapeDoubleQuoted_escapeDecode)

theorem C7_value_decoder_escape_contract_witness:
  "parseValue [dquote, CHR ''a'', backslash, CHR ''n'', backslash, CHR ''q'', backslash, dquote] =
     Inr [CHR ''a'', newline, backslash, CHR ''q'', backslash] \<and>
   parseValue [squote, CHR ''a'', backslash, CHR ''n'', squote] =
     Inr [CHR ''a'', backslash, CHR ''n'']"
  using C7_value_decoder_escape_contract
          [of "[dquote, CHR ''a'', backslash, CHR ''n'', backslash, CHR ''q'', backslash, dquote]" dquote]
        C7_value_decoder_escape_contract
          [of "[squote, CHR ''a'', backslash, CHR ''n'', squote]" squote]
  by simp

section \<open>Comment stripping\<close>

lemma removeInlineCommentLoop_machine:
  "(inQuotes \<longrightarrow> 0 < i) \<Longrightarrow>
   removeInlineCommentLoop line i inQuotes quoteChar =
     (case commentIndex (loopState inQuotes quoteChar) (charBefore line i) (drop i line) of
        None \<Rightarrow> line
      | Some k \<Rightarrow> TrimSpace (take (i + k) line))"
proof (induction line i inQuotes quoteChar rule: removeInlineCommentLoop.induct)
  case (1 line i inQuotes quoteChar)
  show ?case
  proof (cases "i < length line")
    case False
    then show ?thesis by (simp add: removeInlineCommentLoop.simps [of line i])
  next
    case True
    let ?c = "line ! i"
    have d: "drop i line = ?c # drop (i + 1) line"
      using True by (simp add: Cons_nth_drop_Suc)
    have cb: "charBefore line (Suc i) = ?c" by (simp add: charBefore_def)
    consider (startq) "\<not> inQuotes" "?c = dquote \<or> ?c = squote"
      | (cmt) "\<not> inQuotes" "\<not> (?c = dquote \<or> ?c = squote)" "?c = hash"
      | (plain) "\<not> inQuotes" "\<not> (?c = dquote \<or> ?c = squote)" "?c \<noteq> hash"
      | (close) "inQuotes" "?c = quoteChar" "0 < i \<and> line ! (i - 1) \<noteq> backslash"
      | (escaped) "inQuotes" "?c = quoteChar" "\<not> (0 < i \<and> line ! (i - 1) \<noteq> backslash)"
      | (inside) "inQuotes" "?c \<noteq> quoteChar"
      by blast
    then show ?thesis
    proof cases
      case startq
      have "removeInlineCommentLoop line i inQuotes quoteChar =
            removeInlineCommentLoop line (i + 1) True ?c"
        using True startq by (subst removeInlineCommentLoop.simps) (simp add: Let_def)
      also have "\<dots> = (case commentIndex (loopState True ?c) (charBefore line (i + 1)) (drop (i + 1) line) of
                 None \<Rightarrow> line | Some k \<Rightarrow> TrimSpace (take (i + 1 + k) line))"
        using "1.IH"(1) [OF True refl startq(1) startq(2)] by simp
      also have "\<dots> = (case commentIndex (loopState inQuotes quoteChar) (charBefore line i) (drop i line) of
                 None \<Rightarrow> line | Some k \<Rightarrow> TrimSpace (take (i + k) line))"
        using startq by (auto simp: d cb loopState_def split: option.split)
      finally show ?thesis .
    next
      case cmt
      have "removeInlineCommentLoop line i inQuotes quoteChar = TrimSpace (take i line)"
        using True cmt by (subst removeInlineCommentLoop.simps) (simp add: Let_def)
      then show ?thesis using cmt by (simp add: d loopState_def)
    next
      case plain
      have "removeInlineCommentLoop line i inQuotes quoteChar =
            removeInlineCommentLoop line (i + 1) inQuotes quoteChar"
        using True plain by (subst removeInlineCommentLoop.simps) (simp add: Let_def)
      also have "\<dots> = (case commentIndex (loopState inQuotes quoteChar) (charBefore line (i + 1)) (drop (i + 1) line) of
                 None \<Rightarrow> line | Some k \<Rightarrow> TrimSpace (take (i + 1 + k) line))"
        using "1.IH"(2) [OF True refl plain(1) plain(2) plain(3)] plain(1) by simp
      also have "\<dots> = (case commentIndex (loopState inQuotes quoteChar) (charBefore line i) (drop i line) of
                 None \<Rightarrow> line | Some k \<Rightarrow> TrimSpace (take (i + k) line))"
        using plain by (auto simp: d cb loopState_def split: option.split)
      finally show ?thesis .
    next
      case close
      have "removeInlineCommentLoop line i inQuotes quoteChar =
            removeInlineCommentLoop line (i + 1) False (CHR 0x00)"
        using True close by (subst removeInlineCommentLoop.simps) (simp add: Let_def)
      also have "\<dots> = (case commentIndex (loopState False (CHR 0x00)) (charBefore line (i + 1)) (drop (i + 1) line) of
                 None \<Rightarrow> line | Some k \<Rightarrow> TrimSpace (take (i + 1 + k) line))"
        using "1.IH"(3) [OF True refl _ close(2) close(3)] close(1) by simp
      also have "\<dots> = (case commentIndex (loopState inQuotes quoteChar) (charBefore line i) (drop i line) of
                 None \<Rightarrow> line | Some k \<Rightarrow> TrimSpace (take (i + k) line))"
        using close by (auto simp: d cb loopState_def charBefore_def split: option.split)
      finally show ?thesis .
    next
      case escaped
      from escaped(1) "1.prems" have pos: "0 < i" by simp
      have "removeInlineCommentLoop line i inQuotes quoteChar =
            removeInlineCommentLoop line (i + 1) inQuotes quoteChar"
        using True escaped by (subst removeInlineCommentLoop.simps) (auto simp: Let_def)
      also have "\<dots> = (case commentIndex (loopState inQuotes quoteChar) (charBefore line (i + 1)) (drop (i + 1) line) of
                 None \<Rightarrow> line | Some k \<Rightarrow> TrimSpace (take (i + 1 + k) line))"
        using "1.IH"(4) [OF True refl _ escaped(2) escaped(3)] escaped(1) by simp
      also have "\<dots> = (case commentIndex (loopState inQuotes quoteChar) (charBefore line i) (drop i line) of
                 None \<Rightarrow> line | Some k \<Rightarrow> TrimSpace (take (i + k) line))"
        using escaped pos by (auto simp: d cb loopState_def charBefore_def split: option.split)
      finally show ?thesis .
    next
      case inside
      have "removeInlineCommentLoop line i inQuotes quoteChar =
            removeInlineCommentLoop line (i + 1) inQuotes quoteChar"
        using True inside by (subst removeInlineCommentLoop.simps) (simp add: Let_def)
      also have "\<dots> = (case commentIndex (loopState inQuotes quoteChar) (charBefore line (i + 1)) (drop (i + 1) line) of
                 None \<Rightarrow> line | Some k \<Rightarrow> TrimSpace (take (i + 1 + k) line))"
        using "1.IH"(5) [OF True refl _ inside(2)] inside(1) by simp
      also have "\<dots> = (case commentIndex (loopState inQuotes quoteChar) (charBefore line i) (drop i line) of
                 None \<Rightarrow> line | Some k \<Rightarrow> TrimSpace (take (i + k) line))"
        using inside by (auto simp: d cb loopState_def split: option.split)
      finally show ?thesis .
    qed
  qed
qed

lemma removeInlineComment_machine:
  "removeInlineComment line =
     (case commentIndex Unquoted (CHR 0x00) line of
        None \<Rightarrow> line
      | Some k \<Rightarrow> TrimSpace (take k line))"
  using removeInlineCommentLoop_machine [of False 0 line "CHR 0x00"]
  by (simp add: removeInlineComment_def loopState_def charBefore_def split: option.split)

lemma unicodeSpace2_length: "unicodeSpace2 t \<Longrightarrow> length t = 2"
  by (auto simp: unicodeSpace2_def)

lemma unicodeSpace3_length: "unicodeSpace3 t \<Longrightarrow> length t = 3"
  by (auto simp: unicodeSpace3_def)

lemma spaceWidth_0_iff:
  "spaceWidth s = 0 \<longleftrightarrow>
     s = [] \<or> (\<not> asciiSpace (hd s) \<and> \<not> unicodeSpace2 (take 2 s) \<and> \<not> unicodeSpace3 (take 3 s))"
  by (simp add: spaceWidth_def)

lemma spaceWidthEnd_0_iff:
  "spaceWidthEnd s = 0 \<longleftrightarrow>
     s = [] \<or> (\<not> asciiSpace (last s) \<and> \<not> unicodeSpace2 (drop (length s - 2) s) \<and>
                \<not> unicodeSpace3 (drop (length s - 3) s))"
  by (simp add: spaceWidthEnd_def)

lemma spaceWidth_take: "spaceWidth line = 0 \<Longrightarrow> spaceWidth (take k line) = 0"
proof -
  assume a: "spaceWidth line = 0"
  show ?thesis
  proof (cases "take k line = []")
    case True
    then show ?thesis by (simp add: spaceWidth_def)
  next
    case False
    then have k: "0 < k" and ne: "line \<noteq> []" by auto
    from a ne have b: "\<not> asciiSpace (hd line)" "\<not> unicodeSpace2 (take 2 line)"
      "\<not> unicodeSpace3 (take 3 line)"
      by (simp_all add: spaceWidth_0_iff)
    have "\<not> unicodeSpace2 (take 2 (take k line))"
    proof
      assume u: "unicodeSpace2 (take 2 (take k line))"
      then have "length (take 2 (take k line)) = 2" by (rule unicodeSpace2_length)
      then have "2 \<le> k" by simp
      then have "take 2 (take k line) = take 2 line" by (simp add: min_def)
      with u b show False by simp
    qed
    moreover have "\<not> unicodeSpace3 (take 3 (take k line))"
    proof
      assume u: "unicodeSpace3 (take 3 (take k line))"
      then have "length (take 3 (take k line)) = 3" by (rule unicodeSpace3_length)
      then have "3 \<le> k" by simp
      then have "take 3 (take k line) = take 3 line" by (simp add: min_def)
      with u b show False by simp
    qed
    ultimately show ?thesis
      using b(1) k by (simp add: spaceWidth_0_iff hd_take_pos)
  qed
qed

lemmas trim_eval = TrimSpace_def trimLeft.simps trimRight.simps spaceWidth_def spaceWidthEnd_def
  asciiSpace_def unicodeSpace2_def unicodeSpace3_def

text \<open>
  C8. Comment stripping is the two-state quote machine: in the unquoted state a quote
  character enters the quoted state and is remembered, and the first \<^verbatim>\<open>#\<close> ends the line
  there, the \<^verbatim>\<open>#\<close> and what follows being dropped and the rest trimmed; in the quoted state a
  \<^verbatim>\<open>#\<close> is inert and the remembered quote character returns to the unquoted state unless
  the character before it is a backslash. A line with no such \<^verbatim>\<open>#\<close> is returned unchanged.
  The code trims the kept part at both ends; on a line with no leading white space, as
  every line that \<^verbatim>\<open>Parse\<close> passes on is, that removes trailing white space only.
\<close>

theorem C8_quote_aware_comment_stripping:
  "removeInlineComment line =
     (case commentIndex Unquoted (CHR 0x00) line of
        None \<Rightarrow> line
      | Some k \<Rightarrow> TrimSpace (take k line)) \<and>
   (spaceWidth line = 0 \<longrightarrow>
      removeInlineComment line =
        (case commentIndex Unquoted (CHR 0x00) line of
           None \<Rightarrow> line
         | Some k \<Rightarrow> trimRight (take k line)))"
  by (simp add: removeInlineComment_machine TrimSpace_def trimLeft_id spaceWidth_take
        split: option.split)

theorem C8_quote_aware_comment_stripping_witness:
  "spaceWidth (''A='' @ [dquote] @ ''x#'' @ [backslash, dquote] @ ''y'' @ [dquote] @ '' z  # c'') = 0 \<and>
   removeInlineComment (''A='' @ [dquote] @ ''x#'' @ [backslash, dquote] @ ''y'' @ [dquote] @ '' z  # c'') =
     ''A='' @ [dquote] @ ''x#'' @ [backslash, dquote] @ ''y'' @ [dquote] @ '' z''"
  using C8_quote_aware_comment_stripping
          [of "''A='' @ [dquote] @ ''x#'' @ [backslash, dquote] @ ''y'' @ [dquote] @ '' z  # c''"]
  by (simp add: trim_eval)

lemma commentIndex_append_None:
  "commentIndex st prev xs = None \<Longrightarrow>
   commentIndex (quoteRun st prev xs) (if xs = [] then prev else last xs) ys = None \<Longrightarrow>
   commentIndex st prev (xs @ ys) = None"
proof (induction xs arbitrary: st prev)
  case Nil
  then show ?case by simp
next
  case (Cons c cs)
  from Cons.prems(1) have nh: "\<not> (st = Unquoted \<and> c = hash)"
    and tl: "commentIndex (quoteStep st prev c) c cs = None"
    by (auto split: if_splits)
  have "commentIndex (quoteRun (quoteStep st prev c) c cs) (if cs = [] then c else last cs) ys = None"
    using Cons.prems(2) by (cases cs) auto
  with tl have "commentIndex (quoteStep st prev c) c (cs @ ys) = None"
    by (rule Cons.IH)
  with nh show ?case by auto
qed

lemma commentIndex_never_closed:
  "(\<forall>j < length ys. \<not> (ys ! j = q \<and> (if j = 0 then prev else ys ! (j - 1)) \<noteq> backslash)) \<Longrightarrow>
   commentIndex (Quoted q) prev ys = None"
proof (induction ys arbitrary: prev)
  case Nil
  then show ?case by simp
next
  case (Cons c cs)
  from Cons.prems have c: "\<not> (c = q \<and> prev \<noteq> backslash)" by fastforce
  have "\<forall>j < length cs. \<not> (cs ! j = q \<and> (if j = 0 then c else cs ! (j - 1)) \<noteq> backslash)"
  proof (intro allI impI)
    fix j assume "j < length cs"
    then have "\<not> ((c # cs) ! Suc j = q \<and> (c # cs) ! j \<noteq> backslash)"
      using Cons.prems by (metis Suc_less_eq diff_Suc_1 length_Cons nat.distinct(1))
    then show "\<not> (cs ! j = q \<and> (if j = 0 then c else cs ! (j - 1)) \<noteq> backslash)"
      by (cases j) auto
  qed
  then have "commentIndex (Quoted q) c cs = None" by (rule Cons.IH)
  with c show ?case by auto
qed

lemma removeInlineComment_unterminated:
  assumes i: "i < length line" and q: "line ! i = q" "q = squote \<or> q = dquote"
    and before: "commentIndex Unquoted (CHR 0x00) (take i line) = None"
      "quoteRun Unquoted (CHR 0x00) (take i line) = Unquoted"
    and never: "\<forall>j. i < j \<and> j < length line \<longrightarrow> \<not> (line ! j = q \<and> line ! (j - 1) \<noteq> backslash)"
  shows "removeInlineComment line = line"
proof -
  let ?rest = "drop (Suc i) line"
  have split: "line = take i line @ q # ?rest"
    using id_take_nth_drop [OF i] q(1) by simp
  have "\<forall>j < length ?rest. \<not> (?rest ! j = q \<and> (if j = 0 then q else ?rest ! (j - 1)) \<noteq> backslash)"
  proof (intro allI impI)
    fix j assume j: "j < length ?rest"
    then have "\<not> (line ! (Suc i + j) = q \<and> line ! (Suc i + j - 1) \<noteq> backslash)"
      using spec [OF never, of "Suc i + j"] by simp
    moreover have "?rest ! j = line ! (Suc i + j)" using j by simp
    moreover have "(if j = 0 then q else ?rest ! (j - 1)) = line ! (Suc i + j - 1)"
      using j q(1) by (cases j) auto
    ultimately show "\<not> (?rest ! j = q \<and> (if j = 0 then q else ?rest ! (j - 1)) \<noteq> backslash)"
      by simp
  qed
  then have rest: "commentIndex (Quoted q) q ?rest = None"
    by (rule commentIndex_never_closed)
  have "q \<noteq> hash" using q(2) by auto
  then have "commentIndex Unquoted prev (q # ?rest) = None" for prev
    using q(2) rest by auto
  then have "commentIndex Unquoted (CHR 0x00) (take i line @ q # ?rest) = None"
    using before by (intro commentIndex_append_None) auto
  with split have "commentIndex Unquoted (CHR 0x00) line = None" by simp
  then show ?thesis by (simp add: removeInlineComment_machine)
qed

section \<open>Evaluating the parse driver\<close>

lemma parseLoop_entry:
  assumes "TrimSpace text = line" and "line \<noteq> []" and "\<not> HasPrefix line [hash]"
    and "parseLine line = Inr (key, val)" and "key \<noteq> []"
  shows "parseLoop p osenv n result (text # rest) =
         parseLoop p osenv (n + 1)
           (result(key \<mapsto> (if expandVars p then expandVariables osenv val result else val))) rest"
  using assms by (simp add: Let_def parseLoop.simps)

lemma scanTokens_short:
  "\<forall>l \<in> set ls. length l < MaxScanTokenSize \<Longrightarrow> scanTokens ls = (map dropCR ls, None)"
  by (induction ls) auto

lemma expandVariables_no_dollar:
  "dollar \<notin> set s \<Longrightarrow> ReplaceAllStringFunc s f = s"
proof (induction s)
  case Nil
  then show ?case by (simp add: ReplaceAllStringFunc.simps)
next
  case (Cons c s)
  then have "expandVarMatch (c # s) = None" by (auto simp: expandVarMatch_def)
  with Cons show ?case by (simp add: ReplaceAllStringFunc.simps [of "c # s"])
qed

lemma Unmarshal_unterminated_example:
  "Unmarshal osenv (''A='' @ [squote] @ ''b # c'') = Inr [''A'' \<mapsto> squote # ''b # c'']"
proof -
  let ?L = "''A='' @ [squote] @ ''b # c''"
  have sc: "NewScanner ?L = ([?L], None)"
    by (simp add: NewScanner_def rawLines.simps MaxScanTokenSize_def dropCR_def)
  have tr: "TrimSpace ?L = ?L" by code_simp
  have pl: "parseLine ?L = Inr (''A'', squote # ''b # c'')" by code_simp
  have ex: "expandVariables osenv (squote # ''b # c'') Map.empty = squote # ''b # c''"
    by (simp add: expandVariables_def expandVariables_no_dollar)
  have "parseLoop NewParser osenv 0 Map.empty [?L] = Inr [''A'' \<mapsto> squote # ''b # c'']"
    by (subst parseLoop_entry [OF tr _ _ pl])
       (simp_all add: HasPrefix_def NewParser_def ex parseLoop.simps)
  then show ?thesis
    unfolding Unmarshal_def Parse_def sc fst_conv snd_conv by simp
qed

text \<open>
  C10. A quote character that opens a quoted region which no later quote character of the
  same kind closes (each later one has a backslash just before it, or there is none) stops
  comment stripping: the line is returned unchanged, whatever \<^verbatim>\<open>#\<close> follows. So parsing
  \<^verbatim>\<open>A='b # c\<close> succeeds and maps \<^verbatim>\<open>A\<close> to \<^verbatim>\<open>'b # c\<close>, quote and \<^verbatim>\<open>#\<close> included, the decoder
  taking a value with no closing quote as unquoted.
\<close>

theorem C10_unterminated_quote_keeps_comment:
  assumes "i < length line" and "line ! i = q" and "q = squote \<or> q = dquote"
    and "commentIndex Unquoted (CHR 0x00) (take i line) = None"
    and "quoteRun Unquoted (CHR 0x00) (take i line) = Unquoted"
    and "\<forall>j. i < j \<and> j < length line \<longrightarrow> \<not> (line ! j = q \<and> line ! (j - 1) \<noteq> backslash)"
  shows "removeInlineComment line = line \<and>
         Unmarshal osenv (''A='' @ [squote] @ ''b # c'') = Inr [''A'' \<mapsto> squote # ''b # c'']"
  using removeInlineComment_unterminated [OF assms] Unmarshal_unterminated_example by simp

theorem C10_unterminated_quote_keeps_comment_witness:
  "removeInlineComment (''A='' @ [squote] @ ''b # c'') = ''A='' @ [squote] @ ''b # c'' \<and>
   Unmarshal Map.empty (''A='' @ [squote] @ ''b # c'') = Inr [''A'' \<mapsto> squote # ''b # c'']"
proof -
  let ?L = "''A='' @ [squote] @ ''b # c''"
  have never: "\<forall>j. 2 < j \<and> j < length ?L \<longrightarrow> \<not> (?L ! j = squote \<and> ?L ! (j - 1) \<noteq> backslash)"
  proof (intro allI impI)
    fix j :: nat
    assume "2 < j \<and> j < length ?L"
    then have "j = 3 \<or> j = 4 \<or> j = 5 \<or> j = 6 \<or> j = 7" by auto
    then show "\<not> (?L ! j = squote \<and> ?L ! (j - 1) \<noteq> backslash)" by auto
  qed
  show ?thesis
    using C10_unterminated_quote_keeps_comment [of 2 ?L squote Map.empty, OF _ _ _ _ _ never]
    by simp
qed

section \<open>The encoder's output\<close>

lemma needsQuotingLoop_iff: "needsQuotingLoop v \<longleftrightarrow> \<not> plainValue v"
  by (induction v) (auto simp: plainValue_def)

lemma needsQuoting_iff: "needsQuoting v \<longleftrightarrow> \<not> (v \<noteq> [] \<and> plainValue v)"
  by (simp add: needsQuoting_def needsQuotingLoop_iff)

lemma ReplaceAll_append:
  "ReplaceAll (a @ b) old new = ReplaceAll a old new @ ReplaceAll b old new"
  by (induction a) auto

lemma ReplaceAll_concat_map:
  "ReplaceAll (concat (map f s)) old new = concat (map (\<lambda>c. ReplaceAll (f c) old new) s)"
  by (induction s) (auto simp: ReplaceAll_append)

lemma ReplaceAll_as_concat:
  "ReplaceAll s old new = concat (map (\<lambda>c. ReplaceAll [c] old new) s)"
  by (induction s) auto

lemma escapeChar_ReplaceAll:
  "ReplaceAll (ReplaceAll (ReplaceAll (ReplaceAll (ReplaceAll [c]
      backslash [backslash, backslash]) dquote [backslash, dquote])
      newline [backslash, CHR ''n'']) cr [backslash, CHR ''r'']) tab [backslash, CHR ''t''] =
   escapeChar c"
  by (simp add: escapeChar_def)

lemma escapeValue_concat: "escapeValue v = concat (map escapeChar v)"
proof -
  have "escapeValue v =
        ReplaceAll (ReplaceAll (ReplaceAll (ReplaceAll (ReplaceAll v
          backslash [backslash, backslash]) dquote [backslash, dquote])
          newline [backslash, CHR ''n'']) cr [backslash, CHR ''r'']) tab [backslash, CHR ''t'']"
    by (simp add: escapeValue_def)
  also have "\<dots> = concat (map escapeChar v)"
    by (subst ReplaceAll_as_concat [of v])
       (simp only: ReplaceAll_concat_map escapeChar_ReplaceAll)
  finally show ?thesis .
qed

lemma formatEnvLine_encodeEntry: "formatEnvLine key v = encodeEntry key v"
  by (simp add: formatEnvLine_def encodeEntry_def needsQuoting_iff escapeValue_concat)

lemma Marshal_Join:
  "Marshal m = Inr (Join (map (\<lambda>key. encodeEntry key (the (m key))) (sorted_list_of_set (dom m))) [newline])"
  by (simp add: Marshal_def formatEnvLine_encodeEntry)

text \<open>
  C9. For every (finite) map \<^verbatim>\<open>Marshal\<close> returns no error and the text made of one line per
  key, the keys in strictly ascending order, the lines joined by single line feeds with
  none at the end, the empty text for the empty map. The line of a key is \<^verbatim>\<open>KEY=value\<close>
  exactly when the value is not empty and holds none of space, tab, line feed, carriage
  return, double quote, single quote, backslash, \<^verbatim>\<open>#\<close> and \<^verbatim>\<open>$\<close>; otherwise it is the key,
  \<^verbatim>\<open>=\<close> and the value between double quotes with backslash, double quote, line feed,
  carriage return and tab escaped.
\<close>

theorem C9_encoder_contract:
  assumes "finite (dom m)"
  shows "Marshal m =
           Inr (Join (map (\<lambda>key. encodeEntry key (the (m key))) (sorted_list_of_set (dom m)))
                  [newline]) \<and>
         sorted_wrt (<) (sorted_list_of_set (dom m)) \<and>
         set (sorted_list_of_set (dom m)) = dom m \<and>
         length (sorted_list_of_set (dom m)) = card (dom m) \<and>
         (dom m = {} \<longrightarrow> Marshal m = Inr [])"
  using assms by (simp add: Marshal_Join)

theorem C9_encoder_contract_witness:
  "finite (dom [''K'' \<mapsto> ''va lue'', ''E'' \<mapsto> '''', ''P'' \<mapsto> ''plain'']) \<and>
   Marshal [''K'' \<mapsto> ''va lue'', ''E'' \<mapsto> '''', ''P'' \<mapsto> ''plain''] =
     Inr (''E='' @ [dquote, dquote, newline] @ ''K='' @ [dquote] @ ''va lue'' @ [dquote, newline] @
          ''P=plain'') \<and>
   Marshal [''Q'' \<mapsto> [CHR ''a'', backslash, dquote, newline, cr, tab, dollar]] =
     Inr (''Q='' @ [dquote, CHR ''a'', backslash, backslash, backslash, dquote, backslash, CHR ''n'',
                   backslash, CHR ''r'', backslash, CHR ''t'', dollar, dquote]) \<and>
   Marshal Map.empty = Inr []"
  using C9_encoder_contract [of "[''K'' \<mapsto> ''va lue'', ''E'' \<mapsto> '''', ''P'' \<mapsto> ''plain'']"]
    C9_encoder_contract [of "[''Q'' \<mapsto> [CHR ''a'', backslash, dquote, newline, cr, tab, dollar]]"]
    C9_encoder_contract [of Map.empty]
  by (simp add: encodeEntry_def plainValue_def quoteTrigger_def escapeChar_def)

section \<open>Variable expansion\<close>

lemma expandMatch_brace:
  "expandMatch osenv vars ([dollar, lbrace] @ name @ [rbrace]) = resolve osenv vars name"
  by (simp add: expandMatch_def HasPrefix_def HasSuffix_def slice_def resolve_def)

lemma expandMatch_bare:
  "name \<noteq> [] \<Longrightarrow> hd name \<noteq> lbrace \<Longrightarrow>
   expandMatch osenv vars (dollar # name) = resolve osenv vars name"
  by (cases name) (auto simp: expandMatch_def HasPrefix_def HasSuffix_def slice_def resolve_def Let_def)

lemma takeWhile_until:
  "\<forall>c \<in> set xs. P c \<Longrightarrow> \<not> P y \<Longrightarrow> takeWhile P (xs @ y # ys) = xs"
  by (induction xs) auto

lemma dropWhile_until:
  "\<forall>c \<in> set xs. P c \<Longrightarrow> \<not> P y \<Longrightarrow> dropWhile P (xs @ y # ys) = y # ys"
  by (induction xs) auto

lemma takeWhile_all: "\<forall>c \<in> set xs. P c \<Longrightarrow> takeWhile P xs = xs"
  by (induction xs) auto

lemma dropWhile_all: "\<forall>c \<in> set xs. P c \<Longrightarrow> dropWhile P xs = []"
  by (induction xs) auto

lemma expandVarMatch_brace:
  assumes "name \<noteq> []" and "rbrace \<notin> set name"
  shows "expandVarMatch ([dollar, lbrace] @ name @ rbrace # rest) = Some (length name + 3)"
proof -
  have "takeWhile (\<lambda>c. c \<noteq> rbrace) (name @ rbrace # rest) = name"
    using assms(2) by (intro takeWhile_until) auto
  then show ?thesis using assms(1) by (simp add: expandVarMatch_def)
qed

lemma identStart_not_lbrace: "identStart c \<Longrightarrow> c \<noteq> lbrace \<and> c \<noteq> dollar"
  by (auto simp: identStart_def isAlpha_def)

lemma identStart_identChar: "identStart c \<Longrightarrow> identChar c"
  by (auto simp: identStart_def identChar_def)

lemma isIdentifier_chars: "isIdentifier name \<Longrightarrow> \<forall>c \<in> set name. identChar c"
  by (simp add: isIdentifier_def list_all_iff)

lemma takeWhile_ident:
  assumes "isIdentifier name" and "rest = [] \<or> \<not> identChar (hd rest)"
  shows "takeWhile identChar (name @ rest) = name" and "dropWhile identChar (name @ rest) = rest"
  using assms(2) isIdentifier_chars [OF assms(1)]
  by (cases rest; simp add: takeWhile_until dropWhile_until takeWhile_all dropWhile_all)+

lemma expandVarMatch_bare:
  assumes "isIdentifier name" and "rest = [] \<or> \<not> identChar (hd rest)"
  shows "expandVarMatch (dollar # name @ rest) = Some (1 + length name)"
proof -
  from assms(1) have ne: "name \<noteq> []" and st: "identStart (hd name)"
    by (simp_all add: isIdentifier_def)
  with identStart_not_lbrace [of "hd name"] have "hd (name @ rest) \<noteq> lbrace" "identStart (hd (name @ rest))"
    by simp_all
  then show ?thesis
    using ne by (simp add: expandVarMatch_def takeWhile_ident [OF assms])
qed

lemma expandVariables_Nil: "expandVariables osenv [] vars = []"
  by (simp add: expandVariables_def ReplaceAllStringFunc.simps)

lemma expandVariables_brace:
  assumes "name \<noteq> []" and "rbrace \<notin> set name"
  shows "expandVariables osenv ([dollar, lbrace] @ name @ rbrace # rest) vars =
         resolve osenv vars name @ expandVariables osenv rest vars"
proof -
  let ?s = "[dollar, lbrace] @ name @ rbrace # rest"
  have t: "take (length name + 3) ?s = [dollar, lbrace] @ name @ [rbrace]"
    and d: "drop (length name + 3) ?s = rest"
    by (simp_all add: numeral_3_eq_3)
  show ?thesis
    unfolding expandVariables_def
    by (subst ReplaceAllStringFunc.simps)
       (simp only: expandVarMatch_brace [OF assms] t d expandMatch_brace option.case, simp)
qed

lemma expandVariables_bare:
  assumes "isIdentifier name" and "rest = [] \<or> \<not> identChar (hd rest)"
  shows "expandVariables osenv (dollar # name @ rest) vars =
         resolve osenv vars name @ expandVariables osenv rest vars"
proof -
  let ?s = "dollar # name @ rest"
  from assms(1) have ne: "name \<noteq> []" and st: "identStart (hd name)"
    by (simp_all add: isIdentifier_def)
  have t: "take (1 + length name) ?s = dollar # name"
    and d: "drop (1 + length name) ?s = rest"
    by simp_all
  have m: "expandMatch osenv vars (dollar # name) = resolve osenv vars name"
    using ne st identStart_not_lbrace by (intro expandMatch_bare) auto
  show ?thesis
    unfolding expandVariables_def
    by (subst ReplaceAllStringFunc.simps)
       (simp only: expandVarMatch_bare [OF assms] t d m option.case, simp)
qed

lemma expandVariables_keep:
  "expandVarMatch (c # rest) = None \<Longrightarrow>
   expandVariables osenv (c # rest) vars = c # expandVariables osenv rest vars"
  unfolding expandVariables_def
  by (subst ReplaceAllStringFunc.simps) simp

lemma expandVarMatch_other: "c \<noteq> dollar \<Longrightarrow> expandVarMatch (c # rest) = None"
  by (simp add: expandVarMatch_def)

lemma expandVarMatch_dollar_None:
  assumes "\<not> (\<exists>name r. name \<noteq> [] \<and> rbrace \<notin> set name \<and> rest = lbrace # name @ rbrace # r)"
    and "rest = [] \<or> \<not> identStart (hd rest)"
  shows "expandVarMatch (dollar # rest) = None"
proof (cases "rest \<noteq> [] \<and> hd rest = lbrace")
  case False
  with assms(2) show ?thesis by (auto simp: expandVarMatch_def)
next
  case True
  then obtain r where rest: "rest = lbrace # r" by (cases rest) auto
  let ?inner = "takeWhile (\<lambda>c. c \<noteq> rbrace) r"
  have "\<not> (?inner \<noteq> [] \<and> length ?inner < length r)"
  proof
    assume a: "?inner \<noteq> [] \<and> length ?inner < length r"
    then have "dropWhile (\<lambda>c. c \<noteq> rbrace) r \<noteq> []"
      by (metis append_Nil2 less_irrefl takeWhile_dropWhile_id)
    then have "hd (dropWhile (\<lambda>c. c \<noteq> rbrace) r) = rbrace"
      using hd_dropWhile [of "\<lambda>c. c \<noteq> rbrace" r] by auto
    then have "r = ?inner @ rbrace # tl (dropWhile (\<lambda>c. c \<noteq> rbrace) r)"
      using \<open>dropWhile (\<lambda>c. c \<noteq> rbrace) r \<noteq> []\<close>
      by (metis hd_Cons_tl takeWhile_dropWhile_id)
    moreover have "rbrace \<notin> set ?inner"
      using set_takeWhileD by fastforce
    ultimately show False using assms(1) a rest by blast
  qed
  then show ?thesis using rest by (auto simp: expandVarMatch_def Let_def)
qed

section \<open>Evaluating whole inputs\<close>

lemma Unmarshal_lines:
  "NewScanner data = (ls, None) \<Longrightarrow> parseLoop NewParser osenv 0 Map.empty ls = Inr r \<Longrightarrow>
   Unmarshal osenv data = Inr r"
  by (simp add: Unmarshal_def Parse_def)

lemma parseLoop_Nil: "parseLoop p osenv n result [] = Inr result"
  by (simp add: parseLoop.simps)

lemma parseLoop_entry_expand:
  assumes "TrimSpace text = line" and "line \<noteq> []" and "\<not> HasPrefix line [hash]"
    and "parseLine line = Inr (key, val)" and "key \<noteq> []" and "expandVars p"
    and "expandVariables osenv val result = val'"
  shows "parseLoop p osenv n result (text # rest) = parseLoop p osenv (n + 1) (result(key \<mapsto> val')) rest"
  using assms parseLoop_entry [of "text" line key val p osenv n result rest] by simp

lemmas scan_eval = NewScanner_def rawLines.simps MaxScanTokenSize_def dropCR_def

section \<open>Which references are expanded\<close>

lemma Unmarshal_brace_nonident_example:
  "Unmarshal Map.empty ''A=${1x}'' = Inr [''A'' \<mapsto> []]"
proof -
  have sc: "NewScanner ''A=${1x}'' = ([''A=${1x}''], None)"
    by (simp add: scan_eval)
  have tr: "TrimSpace ''A=${1x}'' = ''A=${1x}''" by code_simp
  have pl: "parseLine ''A=${1x}'' = Inr (''A'', ''${1x}'')" by code_simp
  have ex: "expandVariables Map.empty ''${1x}'' Map.empty = []"
    using expandVariables_brace [of "''1x''" Map.empty "[]" Map.empty]
    by (simp add: expandVariables_Nil resolve_def)
  have "parseLoop NewParser Map.empty 0 Map.empty [''A=${1x}''] = Inr [''A'' \<mapsto> []]"
    by (subst parseLoop_entry_expand [OF tr _ _ pl _ _ ex])
       (simp_all add: HasPrefix_def NewParser_def parseLoop_Nil)
  with sc show ?thesis by (rule Unmarshal_lines)
qed

text \<open>
  C6, as stated, fails: the first alternative of the pattern is \<^verbatim>\<open>\$\{([^}]+)\}\<close>, so a brace
  reference is a match whatever its content, and the callback replaces it by the value
  looked up under that content. The text \<^verbatim>\<open>1x\<close> is no identifier, and \<^verbatim>\<open>${1x}\<close> is replaced
  (by the empty string, nothing being set under that name) instead of being left as it is.
\<close>

theorem C6_brace_content_counterexample:
  "\<not> isIdentifier ''1x'' \<and>
   expandVariables Map.empty ''a${1x}b'' Map.empty = ''ab'' \<and>
   Unmarshal Map.empty ''A=${1x}'' = Inr [''A'' \<mapsto> []]"
proof -
  have "\<not> isIdentifier ''1x''"
    by (simp add: isIdentifier_def identStart_def isAlpha_def)
  moreover have "expandVariables Map.empty ''a${1x}b'' Map.empty = ''ab''"
    using expandVariables_brace [of "''1x''" Map.empty "''b''" Map.empty]
    by (simp add: expandVariables_keep expandVarMatch_other expandVariables_Nil resolve_def)
  ultimately show ?thesis using Unmarshal_brace_nonident_example by simp
qed

text \<open>
  C6, amended. Expansion scans the value from left to right. It replaces every \<^verbatim>\<open>${X}\<close>
  whose content \<open>X\<close> is a non-empty run of characters other than \<^verbatim>\<open>}\<close>, an identifier or not,
  and every \<^verbatim>\<open>$NAME\<close> where \<open>NAME\<close> is the longest identifier after the dollar sign, each by
  the value that \<open>X\<close> or \<open>NAME\<close> resolves to. Every other character is kept, and so is a
  dollar sign that starts neither form.
\<close>

theorem C6_expansion_references:
  "expandVariables osenv [] vars = [] \<and>
   (name \<noteq> [] \<and> rbrace \<notin> set name \<longrightarrow>
      expandVariables osenv ([dollar, lbrace] @ name @ rbrace # rest) vars =
        resolve osenv vars name @ expandVariables osenv rest vars) \<and>
   (isIdentifier name \<and> (rest = [] \<or> \<not> identChar (hd rest)) \<longrightarrow>
      expandVariables osenv (dollar # name @ rest) vars =
        resolve osenv vars name @ expandVariables osenv rest vars) \<and>
   (c \<noteq> dollar \<longrightarrow>
      expandVariables osenv (c # rest) vars = c # expandVariables osenv rest vars) \<and>
   (\<not> (\<exists>n r. n \<noteq> [] \<and> rbrace \<notin> set n \<and> rest = lbrace # n @ rbrace # r) \<and>
    (rest = [] \<or> \<not> identStart (hd rest)) \<longrightarrow>
      expandVariables osenv (dollar # rest) vars = dollar # expandVariables osenv rest vars)"
proof (intro conjI impI)
  show "expandVariables osenv [] vars = []" by (rule expandVariables_Nil)
next
  assume "name \<noteq> [] \<and> rbrace \<notin> set name"
  then show "expandVariables osenv ([dollar, lbrace] @ name @ rbrace # rest) vars =
             resolve osenv vars name @ expandVariables osenv rest vars"
    by (simp add: expandVariables_brace [simplified])
next
  assume "isIdentifier name \<and> (rest = [] \<or> \<not> identChar (hd rest))"
  then show "expandVariables osenv (dollar # name @ rest) vars =
             resolve osenv vars name @ expandVariables osenv rest vars"
    by (simp add: expandVariables_bare)
next
  assume "c \<noteq> dollar"
  then show "expandVariables osenv (c # rest) vars = c # expandVariables osenv rest vars"
    by (intro expandVariables_keep expandVarMatch_other)
next
  assume "\<not> (\<exists>n r. n \<noteq> [] \<and> rbrace \<notin> set n \<and> rest = lbrace # n @ rbrace # r) \<and>
          (rest = [] \<or> \<not> identStart (hd rest))"
  then show "expandVariables osenv (dollar # rest) vars = dollar # expandVariables osenv rest vars"
    by (intro expandVariables_keep expandVarMatch_dollar_None) simp_all
qed

theorem C6_expansion_references_witness:
  "expandVariables Map.empty ''${1 x}-$A_1.'' [''A_1'' \<mapsto> ''v'', ''1 x'' \<mapsto> ''w''] = ''w-v.'' \<and>
   expandVariables Map.empty ''${}'' Map.empty = ''${}''"
proof -
  note nil = C6_expansion_references [THEN conjunct1]
  note brace = C6_expansion_references [THEN conjunct2, THEN conjunct1, rule_format]
  note bare = C6_expansion_references [THEN conjunct2, THEN conjunct2, THEN conjunct1, rule_format]
  note other = C6_expansion_references [THEN conjunct2, THEN conjunct2, THEN conjunct2,
      THEN conjunct1, rule_format]
  note lone = C6_expansion_references [THEN conjunct2, THEN conjunct2, THEN conjunct2,
      THEN conjunct2, rule_format]
  let ?vars = "[''A_1'' \<mapsto> ''v'', ''1 x'' \<mapsto> ''w'']"
  have id: "isIdentifier ''A_1''"
    by (simp add: isIdentifier_def identStart_def identChar_def isAlpha_def isDigit_def)
  have nc: "\<not> identChar (CHR ''.'')"
    by (simp add: identChar_def isAlpha_def isDigit_def)
  have "expandVariables Map.empty ''.'' ?vars = ''.''"
    using other [of "CHR ''.''" Map.empty "[]" ?vars] nil [of Map.empty ?vars] by simp
  then have "expandVariables Map.empty ''$A_1.'' ?vars = ''v.''"
    using bare [of "''A_1''" "''.''" Map.empty ?vars] id nc by (simp add: resolve_def)
  then have "expandVariables Map.empty ''-$A_1.'' ?vars = ''-v.''"
    using other [of "CHR ''-''" Map.empty "''$A_1.''" ?vars] by simp
  then have a: "expandVariables Map.empty ''${1 x}-$A_1.'' ?vars = ''w-v.''"
    using brace [of "''1 x''" Map.empty "''-$A_1.''" ?vars] by (simp add: resolve_def)
  have "expandVariables Map.empty ''}'' Map.empty = ''}''"
    using other [of "CHR ''}''" Map.empty "[]" Map.empty] nil [of Map.empty Map.empty] by simp
  then have "expandVariables Map.empty ''{}'' Map.empty = ''{}''"
    using other [of "CHR ''{''" Map.empty "''}''" Map.empty] by simp
  moreover have "\<not> (\<exists>n r. n \<noteq> [] \<and> rbrace \<notin> set n \<and> ''{}'' = lbrace # n @ rbrace # r)"
    by (auto simp: Cons_eq_append_conv)
  ultimately have b: "expandVariables Map.empty ''${}'' Map.empty = ''${}''"
    using lone [of "''{}''" Map.empty Map.empty] by (simp add: identStart_def isAlpha_def)
  from a b show ?thesis by simp
qed

section \<open>The line patterns and their matchers\<close>

lemma reSpace_not_ident: "reSpace c \<Longrightarrow> \<not> identChar c \<and> \<not> identStart c \<and> c \<noteq> CHR ''='' \<and> c \<noteq> CHR '':''"
  by (auto simp: reSpace_def identChar_def identStart_def isAlpha_def isDigit_def)

lemma sep_not_ident: "c = CHR ''='' \<or> c = CHR '':'' \<Longrightarrow> \<not> identChar c \<and> \<not> reSpace c"
  by (auto simp: reSpace_def identChar_def isAlpha_def isDigit_def)

lemma dropWhile_hd: "dropWhile P s = [] \<or> \<not> P (hd (dropWhile P s))"
  using hd_dropWhile [of P s] by blast

text \<open>
  The matcher accepts the texts of the pattern and no others: a match splits the text
  into an identifier, white space, a separator, white space and a value without line
  feed, and every text that splits so is matched, the value group starting after all the
  white space that follows the separator.
\<close>

lemma assignMatch_sound:
  assumes "assignMatch s = Some (k, v)"
  shows "\<exists>w2 sep w3. s = k @ w2 @ sep # w3 @ v \<and> isIdentifier k \<and> list_all reSpace w2 \<and>
           (sep = CHR ''='' \<or> sep = CHR '':'') \<and> list_all reSpace w3 \<and> newline \<notin> set v \<and>
           (v = [] \<or> \<not> reSpace (hd v))"
proof -
  let ?r1 = "dropWhile identChar s"
  let ?r = "dropWhile reSpace ?r1"
  from assms have s: "s \<noteq> []" "identStart (hd s)"
    and r: "?r \<noteq> []" "hd ?r = CHR ''='' \<or> hd ?r = CHR '':''"
    and k: "k = takeWhile identChar s" and v: "v = dropWhile reSpace (tl ?r)"
    and nl: "newline \<notin> set v"
    by (auto simp: assignMatch_def Let_def split: if_splits)
  have "s = takeWhile identChar s @ ?r1" by simp
  also have "?r1 = takeWhile reSpace ?r1 @ ?r" by simp
  also have "?r = hd ?r # tl ?r" using r(1) by simp
  also have "tl ?r = takeWhile reSpace (tl ?r) @ v" by (simp add: v)
  finally have split: "s = k @ takeWhile reSpace ?r1 @ hd ?r # takeWhile reSpace (tl ?r) @ v"
    by (simp add: k)
  have "k \<noteq> []" using s identStart_identChar [OF s(2)] by (cases s) (auto simp: k)
  moreover have "hd k = hd s" using s identStart_identChar [OF s(2)] by (cases s) (auto simp: k)
  moreover have "list_all identChar k" by (simp add: k list_all_iff) (metis set_takeWhileD)
  ultimately have id: "isIdentifier k" using s(2) by (simp add: isIdentifier_def)
  have w2: "list_all reSpace (takeWhile reSpace ?r1)" and w3: "list_all reSpace (takeWhile reSpace (tl ?r))"
    by (simp_all add: list_all_iff) (metis set_takeWhileD)+
  have "v = [] \<or> \<not> reSpace (hd v)" unfolding v by (rule dropWhile_hd)
  with split id w2 w3 r(2) nl show ?thesis by blast
qed

lemma hd_space_sep:
  assumes "\<forall>c \<in> set w2. reSpace c" and "sep = CHR ''='' \<or> sep = CHR '':''"
  shows "\<not> identChar (hd (w2 @ sep # r))"
proof (cases w2)
  case Nil
  then show ?thesis using sep_not_ident [OF assms(2)] by simp
next
  case (Cons a as)
  then have "reSpace a" using assms(1) by simp
  then show ?thesis using reSpace_not_ident [of a] Cons by simp
qed

lemma dropWhile_space_sep:
  assumes "\<forall>c \<in> set w2. reSpace c" and "sep = CHR ''='' \<or> sep = CHR '':''"
  shows "dropWhile reSpace (w2 @ sep # r) = sep # r"
proof -
  have "\<not> reSpace sep" using sep_not_ident [OF assms(2)] by simp
  with assms(1) show ?thesis by (rule dropWhile_until)
qed

lemma dropWhile_space_prefix:
  "\<forall>c \<in> set w. reSpace c \<Longrightarrow> dropWhile reSpace (w @ v) = dropWhile reSpace v"
  by (induction w) simp_all

lemma assignMatch_complete:
  assumes "isIdentifier k" and "list_all reSpace w2" and "sep = CHR ''='' \<or> sep = CHR '':''"
    and "list_all reSpace w3" and "newline \<notin> set (dropWhile reSpace v)"
  shows "assignMatch (k @ w2 @ sep # w3 @ v) = Some (k, dropWhile reSpace v)"
proof -
  let ?s = "k @ w2 @ sep # w3 @ v"
  from assms(1) have ne: "k \<noteq> []" and st: "identStart (hd k)"
    by (simp_all add: isIdentifier_def)
  have w2: "\<forall>c \<in> set w2. reSpace c" and w3: "\<forall>c \<in> set w3. reSpace c"
    using assms(2,4) by (simp_all add: list_all_iff)
  have stop: "w2 @ sep # w3 @ v = [] \<or> \<not> identChar (hd (w2 @ sep # w3 @ v))"
    using hd_space_sep [OF w2 assms(3)] by blast
  have tk: "takeWhile identChar ?s = k" and dk: "dropWhile identChar ?s = w2 @ sep # w3 @ v"
    using takeWhile_ident [OF assms(1) stop] by blast+
  have d2: "dropWhile reSpace (w2 @ sep # w3 @ v) = sep # w3 @ v"
    using w2 assms(3) by (rule dropWhile_space_sep)
  have d3: "dropWhile reSpace (w3 @ v) = dropWhile reSpace v"
    using w3 by (rule dropWhile_space_prefix)
  have hd: "hd ?s = hd k" and nes: "?s \<noteq> []" using ne by simp_all
  have "assignMatch ?s =
        (if sep # w3 @ v = [] \<or> \<not> (hd (sep # w3 @ v) = CHR ''='' \<or> hd (sep # w3 @ v) = CHR '':'') then None
         else if newline \<in> set (dropWhile reSpace (tl (sep # w3 @ v))) then None
         else Some (k, dropWhile reSpace (tl (sep # w3 @ v))))"
    unfolding assignMatch_def tk dk d2 Let_def hd using nes st by (simp only: if_False simp_thms)
  also have "\<dots> = Some (k, dropWhile reSpace v)"
    using assms(3,5) by (simp add: d3)
  finally show ?thesis .
qed

lemma lineRegex_sound:
  assumes "lineRegex s = Some (k, v)"
  shows "\<exists>w1 w2 sep w3. s = w1 @ k @ w2 @ sep # w3 @ v \<and> list_all reSpace w1 \<and> isIdentifier k \<and>
           list_all reSpace w2 \<and> (sep = CHR ''='' \<or> sep = CHR '':'') \<and> list_all reSpace w3 \<and>
           newline \<notin> set v"
proof -
  from assms have "assignMatch (dropWhile reSpace s) = Some (k, v)" by (simp add: lineRegex_def)
  from assignMatch_sound [OF this] obtain w2 sep w3 where
    "dropWhile reSpace s = k @ w2 @ sep # w3 @ v" "isIdentifier k" "list_all reSpace w2"
    "sep = CHR ''='' \<or> sep = CHR '':''" "list_all reSpace w3" "newline \<notin> set v"
    by blast
  moreover have "s = takeWhile reSpace s @ dropWhile reSpace s" by simp
  moreover have "list_all reSpace (takeWhile reSpace s)"
    by (simp add: list_all_iff) (metis set_takeWhileD)
  ultimately show ?thesis by metis
qed

lemma lineRegex_complete:
  assumes "list_all reSpace w1" and "isIdentifier k" and "list_all reSpace w2"
    and "sep = CHR ''='' \<or> sep = CHR '':''" and "list_all reSpace w3"
    and "newline \<notin> set (dropWhile reSpace v)"
  shows "lineRegex (w1 @ k @ w2 @ sep # w3 @ v) = Some (k, dropWhile reSpace v)"
proof -
  from assms(2) have ne: "k \<noteq> []" and st: "identStart (hd k)"
    by (simp_all add: isIdentifier_def)
  have "\<not> reSpace (hd k)" using st reSpace_not_ident by blast
  then have "dropWhile reSpace (w1 @ hd k # tl k @ w2 @ sep # w3 @ v) = hd k # tl k @ w2 @ sep # w3 @ v"
    using assms(1) by (intro dropWhile_until) (simp_all add: list_all_iff)
  then have "dropWhile reSpace (w1 @ k @ w2 @ sep # w3 @ v) = k @ w2 @ sep # w3 @ v"
    using ne by (metis append_Cons hd_Cons_tl)
  then show ?thesis
    by (simp add: lineRegex_def assignMatch_complete [OF assms(2-6)])
qed

lemma exportRegex_sound:
  assumes "exportRegex s = Some (k, v)"
  shows "\<exists>w0 w1 w2 sep w3. s = w0 @ ''export'' @ w1 @ k @ w2 @ sep # w3 @ v \<and>
           list_all reSpace w0 \<and> w1 \<noteq> [] \<and> list_all reSpace w1 \<and> isIdentifier k \<and>
           list_all reSpace w2 \<and> (sep = CHR ''='' \<or> sep = CHR '':'') \<and> list_all reSpace w3 \<and>
           newline \<notin> set v"
proof -
  let ?r = "dropWhile reSpace s"
  let ?t = "drop 6 ?r"
  from assms have e: "take 6 ?r = ''export''" and t: "?t \<noteq> []" "reSpace (hd ?t)"
    and a: "assignMatch (dropWhile reSpace ?t) = Some (k, v)"
    by (auto simp: exportRegex_def Let_def split: if_splits)
  from assignMatch_sound [OF a] obtain w2 sep w3 where
    m: "dropWhile reSpace ?t = k @ w2 @ sep # w3 @ v" "isIdentifier k" "list_all reSpace w2"
    "sep = CHR ''='' \<or> sep = CHR '':''" "list_all reSpace w3" "newline \<notin> set v"
    by blast
  have "s = takeWhile reSpace s @ ?r" by simp
  also have "?r = take 6 ?r @ ?t" by simp
  also have "?t = takeWhile reSpace ?t @ dropWhile reSpace ?t" by simp
  finally have "s = takeWhile reSpace s @ ''export'' @ takeWhile reSpace ?t @ k @ w2 @ sep # w3 @ v"
    by (simp only: e m(1))
  moreover have "list_all reSpace (takeWhile reSpace s)" "list_all reSpace (takeWhile reSpace ?t)"
    by (simp_all add: list_all_iff) (metis set_takeWhileD)+
  moreover have "takeWhile reSpace ?t \<noteq> []" using t by (cases ?t) auto
  ultimately show ?thesis using m(2-6) by blast
qed

lemma dropWhile_space_ident:
  assumes "\<forall>c \<in> set w. reSpace c" and "isIdentifier k"
  shows "dropWhile reSpace (w @ k @ r) = k @ r"
proof -
  from assms(2) have ne: "k \<noteq> []" and st: "identStart (hd k)"
    by (simp_all add: isIdentifier_def)
  have "\<not> reSpace (hd k)" using st reSpace_not_ident by blast
  with assms(1) have "dropWhile reSpace (w @ hd k # (tl k @ r)) = hd k # (tl k @ r)"
    by (rule dropWhile_until)
  moreover have "hd k # (tl k @ r) = k @ r" using ne by (cases k) auto
  ultimately show ?thesis by (simp only:)
qed

lemma exportRegex_complete:
  assumes "list_all reSpace w0" and "w1 \<noteq> []" and "list_all reSpace w1" and "isIdentifier k"
    and "list_all reSpace w2" and "sep = CHR ''='' \<or> sep = CHR '':''" and "list_all reSpace w3"
    and "newline \<notin> set (dropWhile reSpace v)"
  shows "exportRegex (w0 @ ''export'' @ w1 @ k @ w2 @ sep # w3 @ v) = Some (k, dropWhile reSpace v)"
proof -
  let ?rest = "w2 @ sep # w3 @ v"
  have w0: "\<forall>c \<in> set w0. reSpace c" and w1: "\<forall>c \<in> set w1. reSpace c"
    using assms(1,3) by (simp_all add: list_all_iff)
  have "\<not> reSpace (CHR ''e'')" by (simp add: reSpace_def)
  with w0 have d0: "dropWhile reSpace (w0 @ CHR ''e'' # (''xport'' @ w1 @ k @ ?rest)) =
                    CHR ''e'' # (''xport'' @ w1 @ k @ ?rest)"
    by (rule dropWhile_until)
  have d1: "dropWhile reSpace (w1 @ k @ ?rest) = k @ ?rest"
    using w1 assms(4) by (rule dropWhile_space_ident)
  have h: "reSpace (hd (w1 @ k @ ?rest))" using assms(2) w1 by (cases w1) auto
  have "exportRegex (w0 @ ''export'' @ w1 @ k @ ?rest) = assignMatch (k @ ?rest)"
    using d0 d1 h assms(2) by (simp add: exportRegex_def)
  then show ?thesis
    by (simp add: assignMatch_complete [OF assms(4-8)])
qed

section \<open>Lines of the form KEY=value\<close>

lemma identChar_facts:
  assumes "identChar c"
  shows "\<not> reSpace c" "\<not> asciiSpace c" "isAscii c" "c \<noteq> CHR ''=''" "c \<noteq> CHR '':''" "c \<noteq> hash"
    "c \<noteq> squote" "c \<noteq> dquote" "c \<noteq> newline" "c \<noteq> cr"
  using assms
  by (auto simp: identChar_def isAlpha_def isDigit_def reSpace_def asciiSpace_def isAscii_def
      less_eq_char_def less_char_def)

lemma all_identChar_export: "list_all identChar ''export''"
  by (simp add: identChar_def isAlpha_def)

lemma exportRegex_assign:
  assumes "isIdentifier K"
  shows "exportRegex (K @ CHR ''='' # raw) = None"
proof -
  let ?line = "K @ CHR ''='' # raw"
  from assms have ne: "K \<noteq> []" and st: "identStart (hd K)" and ch: "\<forall>c \<in> set K. identChar c"
    by (simp_all add: isIdentifier_def list_all_iff)
  have "\<not> reSpace (hd ?line)"
    using ne st identChar_facts(1) identStart_identChar by simp
  then have dw: "dropWhile reSpace ?line = ?line"
    using ne by (cases K) auto
  have "\<not> (take 6 ?line = ''export'' \<and> drop 6 ?line \<noteq> [] \<and> reSpace (hd (drop 6 ?line)))"
  proof
    assume a: "take 6 ?line = ''export'' \<and> drop 6 ?line \<noteq> [] \<and> reSpace (hd (drop 6 ?line))"
    then have len: "6 < length ?line" by auto
    then have hd6: "hd (drop 6 ?line) = ?line ! 6" by (rule hd_drop_conv_nth)
    consider "length K < 6" | "length K = 6" | "6 < length K" by linarith
    then show False
    proof cases
      case 1
      then have "take 6 ?line ! length K = CHR ''=''"
        by (simp add: nth_append)
      with a have "''export'' ! length K = CHR ''=''" by simp
      moreover have "identChar (''export'' ! length K)"
        using all_identChar_export 1 by (simp add: list_all_length)
      ultimately show False using identChar_facts(4) by metis
    next
      case 2
      then have "?line ! 6 = CHR ''=''" by (metis nth_append_length)
      with a hd6 show False by (simp add: reSpace_def)
    next
      case 3
      then have "?line ! 6 = K ! 6" by (simp add: nth_append)
      moreover have "identChar (K ! 6)" using ch 3 by simp
      ultimately show False using a hd6 identChar_facts(1) by metis
    qed
  qed
  then show ?thesis
    unfolding exportRegex_def Let_def dw by (simp only: if_False)
qed

lemma lineRegex_assign:
  assumes "isIdentifier K" and "raw = [] \<or> \<not> reSpace (hd raw)" and "newline \<notin> set raw"
  shows "lineRegex (K @ CHR ''='' # raw) = Some (K, raw)"
proof -
  let ?line = "K @ CHR ''='' # raw"
  from assms(1) have ne: "K \<noteq> []" and st: "identStart (hd K)" and ch: "\<forall>c \<in> set K. identChar c"
    by (simp_all add: isIdentifier_def list_all_iff)
  have "\<not> reSpace (hd ?line)"
    using ne st identChar_facts(1) identStart_identChar by simp
  then have dw: "dropWhile reSpace ?line = ?line"
    using ne by (cases K) auto
  have neq: "\<not> identChar (CHR ''='')"
    by (simp add: identChar_def isAlpha_def isDigit_def)
  have tk: "takeWhile identChar ?line = K" and dk: "dropWhile identChar ?line = CHR ''='' # raw"
    using ch neq by (simp_all add: takeWhile_until dropWhile_until)
  have dr: "dropWhile reSpace raw = raw"
    using assms(2) by (cases raw) auto
  have hd: "hd ?line = hd K" using ne by simp
  show ?thesis
    unfolding lineRegex_def dw assignMatch_def tk dk Let_def
    using ne st assms(3) by (simp add: reSpace_def dr)
qed

lemma length_trimLeft: "length (trimLeft s) \<le> length s"
proof (induction s rule: trimLeft.induct)
  case (1 s)
  show ?case
  proof (cases "spaceWidth s = 0")
    case True
    then show ?thesis by (simp add: trimLeft_id)
  next
    case False
    have "trimLeft s = trimLeft (drop (spaceWidth s) s)"
      using False by (subst trimLeft.simps) simp
    with 1 [OF False] show ?thesis by simp
  qed
qed

lemma length_trimRight: "length (trimRight s) \<le> length s"
proof (induction s rule: trimRight.induct)
  case (1 s)
  show ?case
  proof (cases "spaceWidthEnd s = 0")
    case True
    then show ?thesis by (simp add: trimRight_id)
  next
    case False
    have "trimRight s = trimRight (take (length s - spaceWidthEnd s) s)"
      using False by (subst trimRight.simps) simp
    with 1 [OF False] show ?thesis by simp
  qed
qed

lemma spaceWidth_pos_nonempty: "spaceWidth s \<noteq> 0 \<Longrightarrow> s \<noteq> []"
  by (auto simp: spaceWidth_def)

lemma spaceWidthEnd_pos_nonempty: "spaceWidthEnd s \<noteq> 0 \<Longrightarrow> s \<noteq> []"
  by (auto simp: spaceWidthEnd_def)

lemma TrimSpace_fixed:
  assumes "TrimSpace v = v"
  shows "spaceWidth v = 0" and "spaceWidthEnd v = 0"
proof -
  show l: "spaceWidth v = 0"
  proof (rule ccontr)
    assume a: "spaceWidth v \<noteq> 0"
    then have "trimLeft v = trimLeft (drop (spaceWidth v) v)"
      by (subst trimLeft.simps) simp
    then have "length (trimLeft v) \<le> length (drop (spaceWidth v) v)"
      using length_trimLeft [of "drop (spaceWidth v) v"] by simp
    also have "\<dots> < length v"
      using a spaceWidth_pos_nonempty [OF a] by simp
    finally have "length (TrimSpace v) < length v"
      using length_trimRight [of "trimLeft v"] by (simp add: TrimSpace_def)
    with assms show False by simp
  qed
  show "spaceWidthEnd v = 0"
  proof (rule ccontr)
    assume a: "spaceWidthEnd v \<noteq> 0"
    have "TrimSpace v = trimRight v" by (simp add: TrimSpace_def trimLeft_id l)
    also have "\<dots> = trimRight (take (length v - spaceWidthEnd v) v)"
      using a by (subst trimRight.simps) simp
    finally have "length (TrimSpace v) \<le> length (take (length v - spaceWidthEnd v) v)"
      using length_trimRight [of "take (length v - spaceWidthEnd v) v"] by simp
    also have "\<dots> < length v"
      using a spaceWidthEnd_pos_nonempty [OF a] by simp
    finally show False using assms by simp
  qed
qed

lemma asciiSpace_reSpace: "reSpace c \<Longrightarrow> asciiSpace c"
  by (auto simp: reSpace_def asciiSpace_def)

lemma TrimSpace_fixed_hd: "TrimSpace v = v \<Longrightarrow> v = [] \<or> \<not> reSpace (hd v)"
  using TrimSpace_fixed(1) [of v] asciiSpace_reSpace by (auto simp: spaceWidth_0_iff)

lemma drop_end_in_prefix:
  assumes "length v < n" and "length (drop (length (p @ v) - n) (p @ v)) = n"
  shows "hd (drop (length (p @ v) - n) (p @ v)) \<in> set p"
proof -
  let ?k = "length (p @ v) - n"
  from assms have k: "?k < length p" by simp
  then have "hd (drop ?k (p @ v)) = (p @ v) ! ?k" by (intro hd_drop_conv_nth) simp
  also have "\<dots> = p ! ?k" using k by (simp add: nth_append)
  finally show ?thesis using k by simp
qed

lemma spaceWidthEnd_append:
  assumes v: "v \<noteq> []" "spaceWidthEnd v = 0" and p: "\<forall>c \<in> set p. isAscii c"
  shows "spaceWidthEnd (p @ v) = 0"
proof -
  from v have b: "\<not> asciiSpace (last v)" "\<not> unicodeSpace2 (drop (length v - 2) v)"
      "\<not> unicodeSpace3 (drop (length v - 3) v)"
    by (simp_all add: spaceWidthEnd_0_iff)
  have "\<not> unicodeSpace2 (drop (length (p @ v) - 2) (p @ v))"
  proof
    assume u: "unicodeSpace2 (drop (length (p @ v) - 2) (p @ v))"
    show False
    proof (cases "length v < 2")
      case True
      from drop_end_in_prefix [OF True unicodeSpace2_length [OF u]] p unicodeSpace2_hd [OF u]
      show False by blast
    next
      case False
      then have "drop (length (p @ v) - 2) (p @ v) = drop (length v - 2) v" by simp
      with u b show False by simp
    qed
  qed
  moreover have "\<not> unicodeSpace3 (drop (length (p @ v) - 3) (p @ v))"
  proof
    assume u: "unicodeSpace3 (drop (length (p @ v) - 3) (p @ v))"
    show False
    proof (cases "length v < 3")
      case True
      from drop_end_in_prefix [OF True unicodeSpace3_length [OF u]] p unicodeSpace3_hd [OF u]
      show False by blast
    next
      case False
      then have "drop (length (p @ v) - 3) (p @ v) = drop (length v - 3) v" by simp
      with u b show False by simp
    qed
  qed
  ultimately show ?thesis using b(1) v(1) by (simp add: spaceWidthEnd_0_iff)
qed

lemma commentIndex_no_hash: "hash \<notin> set s \<Longrightarrow> commentIndex st prev s = None"
  by (induction s arbitrary: st prev) auto

lemma commentIndex_quoted_tail:
  "q \<notin> set inner \<Longrightarrow> commentIndex (Quoted q) prev (inner @ [c]) = None"
  by (induction inner arbitrary: prev) auto

lemma quoteRun_plain:
  "\<forall>c \<in> set s. c \<noteq> squote \<and> c \<noteq> dquote \<Longrightarrow> quoteRun Unquoted prev s = Unquoted"
  by (induction s arbitrary: prev) auto

lemma commentIndex_assign:
  assumes "isIdentifier K" and "commentIndex Unquoted (CHR ''='') raw = None"
  shows "commentIndex Unquoted (CHR 0x00) (K @ CHR ''='' # raw) = None"
proof -
  let ?pre = "K @ [CHR ''='']"
  have ch: "\<forall>c \<in> set ?pre. c \<noteq> hash \<and> c \<noteq> squote \<and> c \<noteq> dquote"
    using isIdentifier_chars [OF assms(1)] identChar_facts(6,7,8) by auto
  then have "hash \<notin> set ?pre" by blast
  then have a: "commentIndex Unquoted (CHR 0x00) ?pre = None"
    by (rule commentIndex_no_hash)
  have b: "quoteRun Unquoted (CHR 0x00) ?pre = Unquoted"
    using ch by (intro quoteRun_plain) blast
  have "commentIndex Unquoted (CHR 0x00) (?pre @ raw) = None"
    using a by (rule commentIndex_append_None) (simp add: b assms(2))
  then show ?thesis by simp
qed

lemma TrimSpace_assign:
  assumes "isIdentifier K" and "raw = [] \<or> spaceWidthEnd raw = 0"
  shows "TrimSpace (K @ CHR ''='' # raw) = K @ CHR ''='' # raw"
proof -
  let ?pre = "K @ [CHR ''='']"
  from assms(1) have ne: "K \<noteq> []" and st: "identStart (hd K)"
    by (simp_all add: isIdentifier_def)
  have asc: "\<forall>c \<in> set ?pre. isAscii c"
    using isIdentifier_chars [OF assms(1)] identChar_facts(3) by (auto simp: isAscii_def)
  have l: "spaceWidth (K @ CHR ''='' # raw) = 0"
    using ne st identStart_identChar identChar_facts(2,3)
    by (intro spaceWidth_ascii) auto
  have r: "spaceWidthEnd (?pre @ raw) = 0"
  proof (cases "raw = []")
    case True
    then show ?thesis
      by (simp add: spaceWidthEnd_ascii isAscii_def asciiSpace_def)
  next
    case False
    with assms(2) asc show ?thesis by (intro spaceWidthEnd_append) auto
  qed
  from l r show ?thesis by (simp add: TrimSpace_id)
qed

lemma parseLine_assign:
  assumes K: "isIdentifier K" and nl: "newline \<notin> set raw" and tr: "TrimSpace raw = raw"
    and ci: "commentIndex Unquoted (CHR ''='') raw = None"
  shows "parseLine (K @ CHR ''='' # raw) =
         (case parseValue raw of Inl err \<Rightarrow> Inl err | Inr v \<Rightarrow> Inr (K, v))"
proof -
  have rc: "removeInlineComment (K @ CHR ''='' # raw) = K @ CHR ''='' # raw"
    by (simp add: removeInlineComment_machine commentIndex_assign [OF K ci])
  have ex: "exportRegex (K @ CHR ''='' # raw) = None"
    by (rule exportRegex_assign [OF K])
  have li: "lineRegex (K @ CHR ''='' # raw) = Some (K, raw)"
    using K TrimSpace_fixed_hd [OF tr] nl by (rule lineRegex_assign)
  show ?thesis
    unfolding parseLine_def rc Let_def ex li by (simp add: tr)
qed

lemma parseLoop_assign:
  assumes K: "isIdentifier K" and nl: "newline \<notin> set raw" and tr: "TrimSpace raw = raw"
    and ci: "commentIndex Unquoted (CHR ''='') raw = None"
    and pv: "parseValue raw = Inr v"
  shows "parseLoop p osenv n result ((K @ CHR ''='' # raw) # rest) =
         parseLoop p osenv (n + 1)
           (result(K \<mapsto> (if expandVars p then expandVariables osenv v result else v))) rest"
proof -
  from K have ne: "K \<noteq> []" and st: "identStart (hd K)"
    by (simp_all add: isIdentifier_def)
  have t: "TrimSpace (K @ CHR ''='' # raw) = K @ CHR ''='' # raw"
    using K TrimSpace_fixed(2) [OF tr] by (intro TrimSpace_assign) simp_all
  have "hd K \<noteq> hash" using st identStart_identChar identChar_facts(6) by blast
  then have h: "\<not> HasPrefix (K @ CHR ''='' # raw) [hash]"
    using ne by (cases K) (auto simp: HasPrefix_def)
  have pl: "parseLine (K @ CHR ''='' # raw) = Inr (K, v)"
    by (simp add: parseLine_assign [OF K nl tr ci] pv)
  show ?thesis
    using ne by (intro parseLoop_entry [OF t _ h pl]) simp_all
qed

lemma TrimSpace_quoted:
  "q = squote \<or> q = dquote \<Longrightarrow> TrimSpace (q # inner @ [q]) = q # inner @ [q]"
  by (intro TrimSpace_ascii_ends) (auto simp: isAscii_def asciiSpace_def)

lemma commentIndex_quoted_token:
  assumes "q = squote \<or> q = dquote" and "q \<notin> set inner"
  shows "commentIndex Unquoted prev (q # inner @ [q]) = None"
  using assms commentIndex_quoted_tail [of q inner q q] by auto

lemma parseValue_single: "parseValue (squote # inner @ [squote]) = Inr inner"
  using parseValue_quoted [of "squote # inner @ [squote]" squote] by simp

lemma parseValue_double: "parseValue (dquote # inner @ [dquote]) = Inr (escapeDecode inner)"
  using parseValue_quoted [of "dquote # inner @ [dquote]" dquote]
  by (simp add: unescapeDoubleQuoted_escapeDecode)

lemma parseValue_unquoted:
  assumes "raw \<noteq> []" and "TrimSpace raw = raw" and "hd raw \<noteq> squote" and "hd raw \<noteq> dquote"
  shows "parseValue raw = Inr raw"
  using assms by (auto simp: parseValue_def Let_def hd_conv_nth)

lemma parseLoop_single_quoted:
  assumes "isIdentifier K" and "newline \<notin> set inner" and "squote \<notin> set inner"
  shows "parseLoop p osenv n result ((K @ CHR ''='' # squote # inner @ [squote]) # rest) =
         parseLoop p osenv (n + 1)
           (result(K \<mapsto> (if expandVars p then expandVariables osenv inner result else inner))) rest"
  using assms
  by (intro parseLoop_assign TrimSpace_quoted commentIndex_quoted_token parseValue_single) auto

lemma parseLoop_double_quoted:
  assumes "isIdentifier K" and "newline \<notin> set inner" and "dquote \<notin> set inner"
  shows "parseLoop p osenv n result ((K @ CHR ''='' # dquote # inner @ [dquote]) # rest) =
         parseLoop p osenv (n + 1)
           (result(K \<mapsto> (if expandVars p then expandVariables osenv (escapeDecode inner) result
                          else escapeDecode inner))) rest"
  using assms
  by (intro parseLoop_assign TrimSpace_quoted commentIndex_quoted_token parseValue_double) auto

lemma parseLoop_unquoted:
  assumes "isIdentifier K" and "raw \<noteq> []" and "TrimSpace raw = raw"
    and "\<forall>c \<in> set raw. c \<noteq> newline \<and> c \<noteq> hash \<and> c \<noteq> squote \<and> c \<noteq> dquote"
  shows "parseLoop p osenv n result ((K @ CHR ''='' # raw) # rest) =
         parseLoop p osenv (n + 1)
           (result(K \<mapsto> (if expandVars p then expandVariables osenv raw result else raw))) rest"
proof -
  have "hash \<notin> set raw" using assms(4) by blast
  then have ci: "commentIndex Unquoted (CHR ''='') raw = None" by (rule commentIndex_no_hash)
  have "hd raw \<in> set raw" using assms(2) by simp
  then have "hd raw \<noteq> squote" "hd raw \<noteq> dquote" using assms(4) by blast+
  then have pv: "parseValue raw = Inr raw"
    using assms(2,3) by (intro parseValue_unquoted)
  have nl: "newline \<notin> set raw" using assms(4) by blast
  show ?thesis by (rule parseLoop_assign [OF assms(1) nl assms(3) ci pv])
qed

section \<open>Expansion in the parse driver\<close>

lemmas ident_eval = isIdentifier_def identStart_def identChar_def isAlpha_def isDigit_def

lemma expandVariables_plain: "dollar \<notin> set s \<Longrightarrow> expandVariables osenv s vars = s"
  by (simp add: expandVariables_def expandVariables_no_dollar)

lemma resolve_Some: "vars name = Some v \<Longrightarrow> resolve osenv vars name = v"
  by (simp add: resolve_def)

lemma Unmarshal_single_quoted_example:
  "Unmarshal osenv (''BASE=x'' @ [newline] @ ''SINGLE='' @ [squote] @ ''$BASE literal?'' @ [squote]) =
     Inr [''BASE'' \<mapsto> ''x'', ''SINGLE'' \<mapsto> ''x literal?'']"
proof -
  let ?L1 = "''BASE=x''"
  let ?L2 = "''SINGLE='' @ [squote] @ ''$BASE literal?'' @ [squote]"
  have sc: "NewScanner (?L1 @ [newline] @ ?L2) = ([?L1, ?L2], None)"
    by (simp add: scan_eval)
  have s1: "parseLoop NewParser osenv 0 Map.empty [?L1, ?L2] =
            parseLoop NewParser osenv (Suc 0) [''BASE'' \<mapsto> ''x''] [?L2]"
    using parseLoop_unquoted [of "''BASE''" "''x''" NewParser osenv 0 Map.empty "[?L2]"]
    by (simp add: ident_eval trim_eval NewParser_def expandVariables_plain)
  have ex: "expandVariables osenv ''$BASE literal?'' [''BASE'' \<mapsto> ''x''] = ''x literal?''"
    using expandVariables_bare [of "''BASE''" "'' literal?''" osenv "[''BASE'' \<mapsto> ''x'']"]
    by (simp add: ident_eval expandVariables_plain resolve_def)
  have s2: "parseLoop NewParser osenv (Suc 0) [''BASE'' \<mapsto> ''x''] [?L2] =
            parseLoop NewParser osenv (Suc (Suc 0)) [''BASE'' \<mapsto> ''x'', ''SINGLE'' \<mapsto> ''x literal?''] []"
    using parseLoop_single_quoted [of "''SINGLE''" "''$BASE literal?''" NewParser osenv "Suc 0"
        "[''BASE'' \<mapsto> ''x'']" "[]"]
    by (simp add: ident_eval NewParser_def ex)
  show ?thesis
    by (rule Unmarshal_lines [OF sc]) (simp only: s1 s2 parseLoop_Nil)
qed

text \<open>
  C4. With expansion enabled, the value that the driver stores for a line is the expansion
  of the decoded value, against the map of the lines before it, whatever the line and
  whatever the quotes of its value: for a value between single quotes the inner text is
  expanded, for one between double quotes the escape-decoded inner text, for an unquoted
  one the value itself. So \<^verbatim>\<open>BASE=x\<close> followed by \<^verbatim>\<open>SINGLE='$BASE literal?'\<close> gives
  \<^verbatim>\<open>x literal?\<close> for \<^verbatim>\<open>SINGLE\<close>: no escape decoding between single quotes, expansion all the
  same.
\<close>

theorem C4_expansion_whatever_the_quotes:
  assumes "expandVars p" and "isIdentifier key" and "newline \<notin> set inner"
  shows
    "(TrimSpace tok = line \<and> line \<noteq> [] \<and> \<not> HasPrefix line [hash] \<and>
      parseLine line = Inr (k, val) \<and> k \<noteq> [] \<longrightarrow>
        parseLoop p osenv n result (tok # rest) =
        parseLoop p osenv (n + 1) (result(k \<mapsto> expandVariables osenv val result)) rest) \<and>
     (squote \<notin> set inner \<longrightarrow>
        parseLoop p osenv n result ((key @ ''='' @ [squote] @ inner @ [squote]) # rest) =
        parseLoop p osenv (n + 1) (result(key \<mapsto> expandVariables osenv inner result)) rest) \<and>
     (dquote \<notin> set inner \<longrightarrow>
        parseLoop p osenv n result ((key @ ''='' @ [dquote] @ inner @ [dquote]) # rest) =
        parseLoop p osenv (n + 1)
          (result(key \<mapsto> expandVariables osenv (escapeDecode inner) result)) rest) \<and>
     (inner \<noteq> [] \<and> TrimSpace inner = inner \<and> hash \<notin> set inner \<and> squote \<notin> set inner \<and>
      dquote \<notin> set inner \<longrightarrow>
        parseLoop p osenv n result ((key @ ''='' @ inner) # rest) =
        parseLoop p osenv (n + 1) (result(key \<mapsto> expandVariables osenv inner result)) rest) \<and>
     Unmarshal osenv (''BASE=x'' @ [newline] @ ''SINGLE='' @ [squote] @ ''$BASE literal?'' @ [squote]) =
       Inr [''BASE'' \<mapsto> ''x'', ''SINGLE'' \<mapsto> ''x literal?'']"
proof (intro conjI impI)
  assume "TrimSpace tok = line \<and> line \<noteq> [] \<and> \<not> HasPrefix line [hash] \<and>
          parseLine line = Inr (k, val) \<and> k \<noteq> []"
  then show "parseLoop p osenv n result (tok # rest) =
             parseLoop p osenv (n + 1) (result(k \<mapsto> expandVariables osenv val result)) rest"
    using parseLoop_entry [of tok line k val p osenv n result rest] assms(1) by simp
next
  assume "squote \<notin> set inner"
  then show "parseLoop p osenv n result ((key @ ''='' @ [squote] @ inner @ [squote]) # rest) =
             parseLoop p osenv (n + 1) (result(key \<mapsto> expandVariables osenv inner result)) rest"
    using parseLoop_single_quoted [OF assms(2,3), of p osenv n result rest] assms(1) by simp
next
  assume "dquote \<notin> set inner"
  then show "parseLoop p osenv n result ((key @ ''='' @ [dquote] @ inner @ [dquote]) # rest) =
             parseLoop p osenv (n + 1)
               (result(key \<mapsto> expandVariables osenv (escapeDecode inner) result)) rest"
    using parseLoop_double_quoted [OF assms(2,3), of p osenv n result rest] assms(1) by simp
next
  assume a: "inner \<noteq> [] \<and> TrimSpace inner = inner \<and> hash \<notin> set inner \<and> squote \<notin> set inner \<and>
             dquote \<notin> set inner"
  then have "\<forall>c \<in> set inner. c \<noteq> newline \<and> c \<noteq> hash \<and> c \<noteq> squote \<and> c \<noteq> dquote"
    using assms(3) by blast
  then show "parseLoop p osenv n result ((key @ ''='' @ inner) # rest) =
             parseLoop p osenv (n + 1) (result(key \<mapsto> expandVariables osenv inner result)) rest"
    using parseLoop_unquoted [OF assms(2), of inner p osenv n result rest] a assms(1) by simp
next
  show "Unmarshal osenv (''BASE=x'' @ [newline] @ ''SINGLE='' @ [squote] @ ''$BASE literal?'' @ [squote]) =
        Inr [''BASE'' \<mapsto> ''x'', ''SINGLE'' \<mapsto> ''x literal?'']"
    by (rule Unmarshal_single_quoted_example)
qed

theorem C4_expansion_whatever_the_quotes_witness:
  "expandVars NewParser \<and> isIdentifier ''V'' \<and>
   parseLoop NewParser Map.empty (Suc 0) [''BASE'' \<mapsto> ''x'']
     [''V='' @ [squote] @ ''$BASE literal?'' @ [squote]] =
     Inr [''BASE'' \<mapsto> ''x'', ''V'' \<mapsto> ''x literal?''] \<and>
   parseLoop NewParser Map.empty (Suc 0) [''BASE'' \<mapsto> ''x'']
     [''V='' @ [dquote] @ ''$BASE'' @ [backslash] @ ''tliteral?'' @ [dquote]] =
     Inr [''BASE'' \<mapsto> ''x'', ''V'' \<mapsto> ''x'' @ [tab] @ ''literal?''] \<and>
   parseLoop NewParser Map.empty (Suc 0) [''BASE'' \<mapsto> ''x''] [''V=$BASE/literal?''] =
     Inr [''BASE'' \<mapsto> ''x'', ''V'' \<mapsto> ''x/literal?''] \<and>
   parseLoop NewParser Map.empty (Suc 0) [''BASE'' \<mapsto> ''x''] ['' export V : $BASE # c ''] =
     Inr [''BASE'' \<mapsto> ''x'', ''V'' \<mapsto> ''x''] \<and>
   Unmarshal Map.empty (''BASE=x'' @ [newline] @ ''SINGLE='' @ [squote] @ ''$BASE literal?'' @ [squote]) =
     Inr [''BASE'' \<mapsto> ''x'', ''SINGLE'' \<mapsto> ''x literal?'']"
proof -
  let ?vars = "[''BASE'' \<mapsto> ''x'']"
  have p: "expandVars NewParser" by (simp add: NewParser_def)
  have k: "isIdentifier ''V''" by (simp add: ident_eval)
  have ex: "expandVariables Map.empty (''$BASE'' @ r) ?vars = ''x'' @ r"
    if "dollar \<notin> set r" "r = [] \<or> \<not> identChar (hd r)" for r
    using expandVariables_bare [of "''BASE''" r Map.empty ?vars] that
    by (simp add: ident_eval expandVariables_plain resolve_def)
  have ex1: "expandVariables Map.empty ''$BASE literal?'' ?vars = ''x literal?''"
    using ex [of "'' literal?''"] by (simp add: ident_eval)
  have ex2: "expandVariables Map.empty (''$BASE'' @ [tab] @ ''literal?'') ?vars = ''x'' @ [tab] @ ''literal?''"
    using ex [of "[tab] @ ''literal?''"] by (simp add: ident_eval)
  have ex3: "expandVariables Map.empty ''$BASE/literal?'' ?vars = ''x/literal?''"
    using ex [of "''/literal?''"] by (simp add: ident_eval)
  have ex4: "expandVariables Map.empty ''$BASE'' ?vars = ''x''"
    using ex [of "[]"] by simp
  have a: "parseLoop NewParser Map.empty (Suc 0) ?vars [''V='' @ [squote] @ ''$BASE literal?'' @ [squote]] =
           Inr [''BASE'' \<mapsto> ''x'', ''V'' \<mapsto> ''x literal?'']"
    using C4_expansion_whatever_the_quotes
        [OF p k, of "''$BASE literal?''" _ _ _ _ Map.empty "Suc 0" ?vars "[]",
         THEN conjunct2, THEN conjunct1]
    by (simp add: ex1 parseLoop_Nil)
  have b: "parseLoop NewParser Map.empty (Suc 0) ?vars
             [''V='' @ [dquote] @ ''$BASE'' @ [backslash] @ ''tliteral?'' @ [dquote]] =
           Inr [''BASE'' \<mapsto> ''x'', ''V'' \<mapsto> ''x'' @ [tab] @ ''literal?'']"
    using C4_expansion_whatever_the_quotes
        [OF p k, of "''$BASE'' @ [backslash] @ ''tliteral?''" _ _ _ _ Map.empty "Suc 0" ?vars "[]",
         THEN conjunct2, THEN conjunct2, THEN conjunct1] ex2
    by (simp add: parseLoop_Nil)
  have c: "parseLoop NewParser Map.empty (Suc 0) ?vars [''V=$BASE/literal?''] =
           Inr [''BASE'' \<mapsto> ''x'', ''V'' \<mapsto> ''x/literal?'']"
    using C4_expansion_whatever_the_quotes
        [OF p k, of "''$BASE/literal?''" _ _ _ _ Map.empty "Suc 0" ?vars "[]",
         THEN conjunct2, THEN conjunct2, THEN conjunct2, THEN conjunct1]
    by (simp add: ex3 parseLoop_Nil trim_eval)
  have tr: "TrimSpace '' export V : $BASE # c '' = ''export V : $BASE # c''" by code_simp
  have pl: "parseLine ''export V : $BASE # c'' = Inr (''V'', ''$BASE'')" by code_simp
  have d: "parseLoop NewParser Map.empty (Suc 0) ?vars ['' export V : $BASE # c ''] =
           Inr [''BASE'' \<mapsto> ''x'', ''V'' \<mapsto> ''x'']"
    using C4_expansion_whatever_the_quotes
        [OF p k, of "[]" "'' export V : $BASE # c ''" "''export V : $BASE # c''" "''V''" "''$BASE''"
           Map.empty "Suc 0" ?vars "[]", THEN conjunct1] tr pl
    by (simp add: ex4 parseLoop_Nil HasPrefix_def)
  have e: "Unmarshal Map.empty (''BASE=x'' @ [newline] @ ''SINGLE='' @ [squote] @ ''$BASE literal?'' @ [squote]) =
           Inr [''BASE'' \<mapsto> ''x'', ''SINGLE'' \<mapsto> ''x literal?'']"
    using C4_expansion_whatever_the_quotes
        [OF p k, of "[]" _ _ _ _ Map.empty,
         THEN conjunct2, THEN conjunct2, THEN conjunct2, THEN conjunct2]
    by simp
  from p k a b c d e show ?thesis by simp
qed

section \<open>Resolution of references\<close>

lemma parseLoop_Cons:
  "parseLoop p osenv n result (x # xs) =
     (case lineStep p osenv n result x of
        Inl err \<Rightarrow> Inl err
      | Inr r \<Rightarrow> parseLoop p osenv (n + 1) r xs)"
  by (simp add: parseLoop.simps lineStep_def Let_def split: sum.split prod.split)

lemma parseLoop_append:
  "parseLoop p osenv n result (xs @ ys) =
     (case parseLoop p osenv n result xs of
        Inl err \<Rightarrow> Inl err
      | Inr r \<Rightarrow> parseLoop p osenv (n + length xs) r ys)"
proof (induction xs arbitrary: n result)
  case Nil
  then show ?case by (simp add: parseLoop.simps)
next
  case (Cons x xs)
  show ?case
    by (simp add: parseLoop_Cons Cons.IH split: sum.split)
qed

lemma Unmarshal_forward_reference_example:
  assumes "osenv ''B'' = None"
  shows "Unmarshal osenv (''A=${B}'' @ [newline] @ ''B=later'') =
         Inr [''A'' \<mapsto> [], ''B'' \<mapsto> ''later'']"
proof -
  let ?L1 = "''A=${B}''"
  let ?L2 = "''B=later''"
  have sc: "NewScanner (?L1 @ [newline] @ ?L2) = ([?L1, ?L2], None)"
    by (simp add: scan_eval)
  have ex: "expandVariables osenv ''${B}'' Map.empty = []"
    using expandVariables_brace [of "''B''" osenv "[]" Map.empty] assms
    by (simp add: expandVariables_Nil resolve_def)
  have s1: "parseLoop NewParser osenv 0 Map.empty [?L1, ?L2] =
            parseLoop NewParser osenv (Suc 0) [''A'' \<mapsto> []] [?L2]"
    using parseLoop_unquoted [of "''A''" "''${B}''" NewParser osenv 0 Map.empty "[?L2]"]
    by (simp add: ident_eval trim_eval NewParser_def ex)
  have s2: "parseLoop NewParser osenv (Suc 0) [''A'' \<mapsto> []] [?L2] =
            parseLoop NewParser osenv (Suc (Suc 0)) [''A'' \<mapsto> [], ''B'' \<mapsto> ''later''] []"
    using parseLoop_unquoted [of "''B''" "''later''" NewParser osenv "Suc 0" "[''A'' \<mapsto> []]" "[]"]
    by (simp add: ident_eval trim_eval NewParser_def expandVariables_plain)
  show ?thesis
    by (rule Unmarshal_lines [OF sc]) (simp only: s1 s2 parseLoop_Nil)
qed

lemma expandVariables_prefix:
  "dollar \<notin> set pre \<Longrightarrow>
   expandVariables osenv (pre @ s) vars = pre @ expandVariables osenv s vars"
proof (induction pre)
  case Nil
  then show ?case by simp
next
  case (Cons a pre)
  then have "a \<noteq> dollar" and "dollar \<notin> set pre" by auto
  from this(1) have "expandVariables osenv (a # pre @ s) vars =
                     a # expandVariables osenv (pre @ s) vars"
    by (intro expandVariables_keep expandVarMatch_other)
  with Cons.IH [OF \<open>dollar \<notin> set pre\<close>] show ?case by simp
qed

text \<open>
  C5. Every reference, wherever it stands in the value, is replaced by what its name
  resolves to: the entry of the result map if there is one, else the variable of the
  process environment if it is set, else the empty string, for the brace form and the bare
  form alike, with the text before and after it expanded in the same way and all other
  characters kept. The map a line is expanded against is the result of the lines before it
  and of nothing else, so an entry is not visible before its own line: with \<^verbatim>\<open>B\<close> unset in
  the process environment, \<^verbatim>\<open>A=${B}\<close> followed by \<^verbatim>\<open>B=later\<close> gives the empty string for \<^verbatim>\<open>A\<close>
  and \<^verbatim>\<open>later\<close> for \<^verbatim>\<open>B\<close>.
\<close>

theorem C5_resolution_order_and_forward_references:
  "(vars name = Some v \<longrightarrow> resolve osenv vars name = v) \<and>
   (vars name = None \<and> osenv name = Some v \<longrightarrow> resolve osenv vars name = v) \<and>
   (vars name = None \<and> osenv name = None \<longrightarrow> resolve osenv vars name = []) \<and>
   expandVariables osenv [] vars = [] \<and>
   (name \<noteq> [] \<and> rbrace \<notin> set name \<longrightarrow>
      expandVariables osenv ([dollar, lbrace] @ name @ rbrace # rest) vars =
        resolve osenv vars name @ expandVariables osenv rest vars) \<and>
   (isIdentifier name \<and> (rest = [] \<or> \<not> identChar (hd rest)) \<longrightarrow>
      expandVariables osenv (dollar # name @ rest) vars =
        resolve osenv vars name @ expandVariables osenv rest vars) \<and>
   (c \<noteq> dollar \<longrightarrow>
      expandVariables osenv (c # rest) vars = c # expandVariables osenv rest vars) \<and>
   (\<not> (\<exists>n r. n \<noteq> [] \<and> rbrace \<notin> set n \<and> rest = lbrace # n @ rbrace # r) \<and>
    (rest = [] \<or> \<not> identStart (hd rest)) \<longrightarrow>
      expandVariables osenv (dollar # rest) vars = dollar # expandVariables osenv rest vars) \<and>
   (dollar \<notin> set pre \<and> name \<noteq> [] \<and> rbrace \<notin> set name \<longrightarrow>
      expandVariables osenv (pre @ [dollar, lbrace] @ name @ rbrace # rest) vars =
        pre @ resolve osenv vars name @ expandVariables osenv rest vars) \<and>
   (dollar \<notin> set pre \<and> isIdentifier name \<and> (rest = [] \<or> \<not> identChar (hd rest)) \<longrightarrow>
      expandVariables osenv (pre @ dollar # name @ rest) vars =
        pre @ resolve osenv vars name @ expandVariables osenv rest vars) \<and>
   (expandVars p \<and> parseLoop p osenv 0 Map.empty before = Inr r \<and>
    TrimSpace tok = line \<and> line \<noteq> [] \<and> \<not> HasPrefix line [hash] \<and>
    parseLine line = Inr (key, val) \<and> key \<noteq> [] \<longrightarrow>
      parseLoop p osenv 0 Map.empty (before @ tok # rest') =
      parseLoop p osenv (length before + 1) (r(key \<mapsto> expandVariables osenv val r)) rest') \<and>
   (osenv ''B'' = None \<longrightarrow>
      Unmarshal osenv (''A=${B}'' @ [newline] @ ''B=later'') =
      Inr [''A'' \<mapsto> [], ''B'' \<mapsto> ''later''])"
proof (intro conjI impI)
  assume "vars name = Some v"
  then show "resolve osenv vars name = v" by (simp add: resolve_def)
next
  assume "vars name = None \<and> osenv name = Some v"
  then show "resolve osenv vars name = v" by (simp add: resolve_def)
next
  assume "vars name = None \<and> osenv name = None"
  then show "resolve osenv vars name = []" by (simp add: resolve_def)
next
  show "expandVariables osenv [] vars = []" by (rule expandVariables_Nil)
next
  assume "name \<noteq> [] \<and> rbrace \<notin> set name"
  then show "expandVariables osenv ([dollar, lbrace] @ name @ rbrace # rest) vars =
             resolve osenv vars name @ expandVariables osenv rest vars"
    by (simp add: expandVariables_brace [simplified])
next
  assume "isIdentifier name \<and> (rest = [] \<or> \<not> identChar (hd rest))"
  then show "expandVariables osenv (dollar # name @ rest) vars =
             resolve osenv vars name @ expandVariables osenv rest vars"
    by (simp add: expandVariables_bare)
next
  assume "c \<noteq> dollar"
  then show "expandVariables osenv (c # rest) vars = c # expandVariables osenv rest vars"
    by (intro expandVariables_keep expandVarMatch_other)
next
  assume "\<not> (\<exists>n r. n \<noteq> [] \<and> rbrace \<notin> set n \<and> rest = lbrace # n @ rbrace # r) \<and>
          (rest = [] \<or> \<not> identStart (hd rest))"
  then show "expandVariables osenv (dollar # rest) vars = dollar # expandVariables osenv rest vars"
    by (intro expandVariables_keep expandVarMatch_dollar_None) simp_all
next
  assume a: "dollar \<notin> set pre \<and> name \<noteq> [] \<and> rbrace \<notin> set name"
  then have "expandVariables osenv ([dollar, lbrace] @ name @ rbrace # rest) vars =
             resolve osenv vars name @ expandVariables osenv rest vars"
    by (simp add: expandVariables_brace [simplified])
  moreover from a have "dollar \<notin> set pre" by simp
  then have "expandVariables osenv (pre @ [dollar, lbrace] @ name @ rbrace # rest) vars =
             pre @ expandVariables osenv ([dollar, lbrace] @ name @ rbrace # rest) vars"
    by (rule expandVariables_prefix)
  ultimately show "expandVariables osenv (pre @ [dollar, lbrace] @ name @ rbrace # rest) vars =
               pre @ resolve osenv vars name @ expandVariables osenv rest vars"
    by simp
next
  assume a: "dollar \<notin> set pre \<and> isIdentifier name \<and> (rest = [] \<or> \<not> identChar (hd rest))"
  then have "expandVariables osenv (dollar # name @ rest) vars =
             resolve osenv vars name @ expandVariables osenv rest vars"
    by (simp add: expandVariables_bare)
  moreover from a have "dollar \<notin> set pre" by simp
  then have "expandVariables osenv (pre @ dollar # name @ rest) vars =
             pre @ expandVariables osenv (dollar # name @ rest) vars"
    by (rule expandVariables_prefix)
  ultimately show "expandVariables osenv (pre @ dollar # name @ rest) vars =
               pre @ resolve osenv vars name @ expandVariables osenv rest vars"
    by simp
next
  assume a: "expandVars p \<and> parseLoop p osenv 0 Map.empty before = Inr r \<and>
    TrimSpace tok = line \<and> line \<noteq> [] \<and> \<not> HasPrefix line [hash] \<and>
    parseLine line = Inr (key, val) \<and> key \<noteq> []"
  then have "parseLoop p osenv (length before) r (tok # rest') =
             parseLoop p osenv (length before + 1) (r(key \<mapsto> expandVariables osenv val r)) rest'"
    using parseLoop_entry [of tok line key val p osenv "length before" r rest'] by simp
  with a show "parseLoop p osenv 0 Map.empty (before @ tok # rest') =
               parseLoop p osenv (length before + 1) (r(key \<mapsto> expandVariables osenv val r)) rest'"
    by (simp add: parseLoop_append)
next
  assume "osenv ''B'' = None"
  then show "Unmarshal osenv (''A=${B}'' @ [newline] @ ''B=later'') =
             Inr [''A'' \<mapsto> [], ''B'' \<mapsto> ''later'']"
    by (rule Unmarshal_forward_reference_example)
qed

theorem C5_resolution_order_and_forward_references_witness:
  "expandVariables [''V'' \<mapsto> ''os'', ''W'' \<mapsto> ''os2''] ''x${V}-$W.$X$'' [''V'' \<mapsto> ''file''] =
     ''xfile-os2.$'' \<and>
   expandVariables [''V'' \<mapsto> ''os'', ''W'' \<mapsto> ''os2''] ''ab${V}c'' [''V'' \<mapsto> ''file''] = ''abfilec'' \<and>
   expandVariables [''V'' \<mapsto> ''os'', ''W'' \<mapsto> ''os2''] ''ab$W'' [''V'' \<mapsto> ''file''] = ''abos2'' \<and>
   parseLoop NewParser [''B'' \<mapsto> ''os''] 0 Map.empty [''B=file'', ''# c'', ''A=${B}'', ''B=later''] =
     Inr [''B'' \<mapsto> ''later'', ''A'' \<mapsto> ''file''] \<and>
   Unmarshal Map.empty (''A=${B}'' @ [newline] @ ''B=later'') = Inr [''A'' \<mapsto> [], ''B'' \<mapsto> ''later'']"
proof -
  let ?os = "[''V'' \<mapsto> ''os'', ''W'' \<mapsto> ''os2'']"
  let ?vars = "[''V'' \<mapsto> ''file'']"
  note r1 = C5_resolution_order_and_forward_references [THEN conjunct1, rule_format]
  note t1 = C5_resolution_order_and_forward_references [THEN conjunct2]
  note r2 = t1 [THEN conjunct1, rule_format]
  note t2 = t1 [THEN conjunct2]
  note r3 = t2 [THEN conjunct1, rule_format]
  note t3 = t2 [THEN conjunct2]
  note nil = t3 [THEN conjunct1]
  note t4 = t3 [THEN conjunct2]
  note br = t4 [THEN conjunct1, rule_format]
  note t5 = t4 [THEN conjunct2]
  note ba = t5 [THEN conjunct1, rule_format]
  note t6 = t5 [THEN conjunct2]
  note other = t6 [THEN conjunct1, rule_format]
  note t7 = t6 [THEN conjunct2]
  note lone = t7 [THEN conjunct1, rule_format]
  note t8 = t7 [THEN conjunct2]
  note prebr = t8 [THEN conjunct1, rule_format]
  note t9 = t8 [THEN conjunct2]
  note preba = t9 [THEN conjunct1, rule_format]
  note t10 = t9 [THEN conjunct2]
  note vis = t10 [THEN conjunct1, rule_format]
  note fw = t10 [THEN conjunct2, rule_format]
  have rV: "resolve ?os ?vars ''V'' = ''file''"
    using r1 [of ?vars "''V''" "''file''" ?os] by simp
  have rW: "resolve ?os ?vars ''W'' = ''os2''"
    using r2 [of ?vars "''W''" ?os "''os2''"] by simp
  have rX: "resolve ?os ?vars ''X'' = []"
    using r3 [of ?vars "''X''" ?os] by simp
  have nd: "\<not> identChar dollar" "\<not> identChar (CHR ''.'')"
    by (simp_all add: identChar_def isAlpha_def isDigit_def)
  have "expandVariables ?os ''$'' ?vars = ''$''"
    using lone [of "[]" ?os ?vars] nil [of ?os ?vars] by simp
  then have "expandVariables ?os ''$X$'' ?vars = ''$''"
    using ba [of "''X''" "''$''" ?os ?vars] nd rX by (simp add: ident_eval)
  then have "expandVariables ?os ''.$X$'' ?vars = ''.$''"
    using other [of "CHR ''.''" ?os "''$X$''" ?vars] by simp
  then have "expandVariables ?os ''$W.$X$'' ?vars = ''os2.$''"
    using ba [of "''W''" "''.$X$''" ?os ?vars] nd rW by (simp add: ident_eval)
  then have "expandVariables ?os ''-$W.$X$'' ?vars = ''-os2.$''"
    using other [of "CHR ''-''" ?os "''$W.$X$''" ?vars] by simp
  then have "expandVariables ?os ''${V}-$W.$X$'' ?vars = ''file-os2.$''"
    using br [of "''V''" ?os "''-$W.$X$''" ?vars] rV by simp
  then have a: "expandVariables ?os ''x${V}-$W.$X$'' ?vars = ''xfile-os2.$''"
    using other [of "CHR ''x''" ?os "''${V}-$W.$X$''" ?vars] by simp
  have "expandVariables ?os ''c'' ?vars = ''c''"
    using other [of "CHR ''c''" ?os "[]" ?vars] nil [of ?os ?vars] by simp
  then have b: "expandVariables ?os ''ab${V}c'' ?vars = ''abfilec''"
    using prebr [of "''ab''" "''V''" ?os "''c''" ?vars] rV by simp
  have c: "expandVariables ?os ''ab$W'' ?vars = ''abos2''"
    using preba [of "''ab''" "''W''" "[]" ?os ?vars] rW nil [of ?os ?vars] by (simp add: ident_eval)
  have d: "Unmarshal Map.empty (''A=${B}'' @ [newline] @ ''B=later'') =
           Inr [''A'' \<mapsto> [], ''B'' \<mapsto> ''later'']"
    using fw [of Map.empty] by simp
  let ?o = "[''B'' \<mapsto> ''os'']"
  have before: "parseLoop NewParser ?o 0 Map.empty [''B=file'', ''# c''] = Inr [''B'' \<mapsto> ''file'']"
  proof -
    have "parseLoop NewParser ?o 0 Map.empty [''B=file'', ''# c''] =
          parseLoop NewParser ?o (Suc 0) [''B'' \<mapsto> ''file''] [''# c'']"
      using parseLoop_unquoted [of "''B''" "''file''" NewParser ?o 0 Map.empty "[''# c'']"]
      by (simp add: ident_eval trim_eval NewParser_def expandVariables_plain)
    moreover have "lineStep NewParser ?o (Suc 0) [''B'' \<mapsto> ''file''] ''# c'' = Inr [''B'' \<mapsto> ''file'']"
      by (simp add: lineStep_def trim_eval HasPrefix_def)
    ultimately show ?thesis by (simp add: parseLoop_Cons parseLoop_Nil)
  qed
  have tr: "TrimSpace ''A=${B}'' = ''A=${B}''" by (simp add: trim_eval)
  have pl: "parseLine ''A=${B}'' = Inr (''A'', ''${B}'')" by code_simp
  have ex: "expandVariables ?o ''${B}'' [''B'' \<mapsto> ''file''] = ''file''"
    using br [of "''B''" ?o "[]" "[''B'' \<mapsto> ''file'']"] nil [of ?o "[''B'' \<mapsto> ''file'']"]
      r1 [of "[''B'' \<mapsto> ''file'']" "''B''" "''file''" ?o]
    by simp
  have last: "parseLoop NewParser ?o (Suc (Suc (Suc 0))) [''B'' \<mapsto> ''file'', ''A'' \<mapsto> ''file''] [''B=later''] =
              Inr [''B'' \<mapsto> ''later'', ''A'' \<mapsto> ''file'']"
  proof -
    have "parseLoop NewParser ?o (Suc (Suc (Suc 0))) [''B'' \<mapsto> ''file'', ''A'' \<mapsto> ''file''] [''B=later''] =
          Inr ([''B'' \<mapsto> ''file'', ''A'' \<mapsto> ''file''](''B'' \<mapsto> ''later''))"
      using parseLoop_unquoted [of "''B''" "''later''" NewParser ?o "Suc (Suc (Suc 0))"
          "[''B'' \<mapsto> ''file'', ''A'' \<mapsto> ''file'']" "[]"]
      by (simp add: ident_eval trim_eval NewParser_def expandVariables_plain parseLoop_Nil)
    moreover have "[''B'' \<mapsto> ''file'', ''A'' \<mapsto> ''file''](''B'' \<mapsto> ''later'') =
                   [''B'' \<mapsto> ''later'', ''A'' \<mapsto> ''file'']"
      by (rule ext) simp
    ultimately show ?thesis by simp
  qed
  have e: "parseLoop NewParser ?o 0 Map.empty [''B=file'', ''# c'', ''A=${B}'', ''B=later''] =
           Inr [''B'' \<mapsto> ''later'', ''A'' \<mapsto> ''file'']"
    using vis [of NewParser ?o "[''B=file'', ''# c'']" "[''B'' \<mapsto> ''file'']" "''A=${B}''" "''A=${B}''"
        "''A''" "''${B}''" "[''B=later'']"] before tr pl
    by (simp add: NewParser_def HasPrefix_def ex last [unfolded NewParser_def])
  from a b c d e show ?thesis by simp
qed

section \<open>Encoding and decoding again\<close>

text \<open>
  C2. There is a map that does not survive the round trip with expansion enabled: the
  value \<^verbatim>\<open>$A\<close> of \<^verbatim>\<open>B\<close> is written between double quotes because of its dollar sign, and
  parsing the text expands the quoted value against the entry of \<^verbatim>\<open>A\<close> parsed on the line
  before; parsing succeeds and \<^verbatim>\<open>B\<close> comes back as \<^verbatim>\<open>x\<close>.
\<close>

theorem C2_round_trip_divergence:
  "\<exists>m text r. m = [''A'' \<mapsto> ''x'', ''B'' \<mapsto> ''$A''] \<and> finite (dom m) \<and>
     Marshal m = Inr text \<and> text = ''A=x'' @ [newline] @ ''B='' @ [dquote] @ ''$A'' @ [dquote] \<and>
     Unmarshal osenv text = Inr r \<and> r = [''A'' \<mapsto> ''x'', ''B'' \<mapsto> ''x''] \<and> r \<noteq> m"
proof -
  let ?m = "[''A'' \<mapsto> ''x'', ''B'' \<mapsto> ''$A'']"
  let ?L1 = "''A=x''"
  let ?L2 = "''B='' @ [dquote] @ ''$A'' @ [dquote]"
  let ?r = "[''A'' \<mapsto> ''x'', ''B'' \<mapsto> ''x'']"
  have ms: "Marshal ?m = Inr (?L1 @ [newline] @ ?L2)"
    by (simp add: Marshal_def formatEnvLine_def needsQuoting_def quoteTrigger_def escapeValue_def)
  have sc: "NewScanner (?L1 @ [newline] @ ?L2) = ([?L1, ?L2], None)"
    by (simp add: scan_eval)
  have s1: "parseLoop NewParser osenv 0 Map.empty [?L1, ?L2] =
            parseLoop NewParser osenv (Suc 0) [''A'' \<mapsto> ''x''] [?L2]"
    using parseLoop_unquoted [of "''A''" "''x''" NewParser osenv 0 Map.empty "[?L2]"]
    by (simp add: ident_eval trim_eval NewParser_def expandVariables_plain)
  have ex: "expandVariables osenv ''$A'' [''A'' \<mapsto> ''x''] = ''x''"
    using expandVariables_bare [of "''A''" "[]" osenv "[''A'' \<mapsto> ''x'']"]
    by (simp add: ident_eval expandVariables_Nil resolve_def)
  have s2: "parseLoop NewParser osenv (Suc 0) [''A'' \<mapsto> ''x''] [?L2] =
            parseLoop NewParser osenv (Suc (Suc 0)) ?r []"
    using parseLoop_double_quoted [of "''B''" "''$A''" NewParser osenv "Suc 0" "[''A'' \<mapsto> ''x'']" "[]"]
    by (simp add: ident_eval NewParser_def ex)
  have un: "Unmarshal osenv (?L1 @ [newline] @ ?L2) = Inr ?r"
    by (rule Unmarshal_lines [OF sc]) (simp only: s1 s2 parseLoop_Nil)
  have ne: "?r \<noteq> ?m"
  proof
    assume "?r = ?m"
    then have "?r ''B'' = ?m ''B''" by (rule arg_cong)
    then show False by simp
  qed
  from ms un ne show ?thesis by simp
qed

theorem C2_round_trip_divergence_witness:
  "\<exists>m text r. m = [''A'' \<mapsto> ''x'', ''B'' \<mapsto> ''$A''] \<and> finite (dom m) \<and>
     Marshal m = Inr text \<and> text = ''A=x'' @ [newline] @ ''B='' @ [dquote] @ ''$A'' @ [dquote] \<and>
     Unmarshal Map.empty text = Inr r \<and> r = [''A'' \<mapsto> ''x'', ''B'' \<mapsto> ''x''] \<and> r \<noteq> m"
  using C2_round_trip_divergence [of Map.empty] .

section \<open>Malformed lines\<close>

lemma parseValue_total: "\<exists>v. parseValue raw = Inr v"
  by (simp add: parseValue_def Let_def)

lemma parseLine_error:
  "parseLine line = Inl err \<longleftrightarrow>
     (exportRegex (removeInlineComment line) = None \<and> lineRegex (removeInlineComment line) = None \<and>
      TrimSpace (removeInlineComment line) \<noteq> [] \<and> err = InvalidLineFormat (removeInlineComment line))"
proof -
  have pv: "\<And>raw. \<exists>v. parseValue (TrimSpace raw) = Inr v" by (rule parseValue_total)
  show ?thesis
  proof (cases "exportRegex (removeInlineComment line)")
    case (Some kv)
    obtain k v where kv: "kv = (k, v)" by (cases kv)
    from pv [of v] obtain w where "parseValue (TrimSpace v) = Inr w" ..
    with Some kv show ?thesis by (simp add: parseLine_def)
  next
    case None
    note ex = this
    show ?thesis
    proof (cases "lineRegex (removeInlineComment line)")
      case (Some kv)
      obtain k v where kv: "kv = (k, v)" by (cases kv)
      from pv [of v] obtain w where "parseValue (TrimSpace v) = Inr w" ..
      with Some kv ex show ?thesis by (simp add: parseLine_def)
    next
      case None
      with ex show ?thesis by (auto simp: parseLine_def Let_def split: if_splits)
    qed
  qed
qed

lemma removeInlineComment_Nil: "removeInlineComment [] = []"
  by (simp add: removeInlineComment_machine)

lemma removeInlineComment_hash: "HasPrefix line [hash] \<Longrightarrow> removeInlineComment line = []"
  by (cases line) (auto simp: HasPrefix_def removeInlineComment_machine)

lemma malformed_not_skipped:
  assumes "malformed tok"
  shows "TrimSpace tok \<noteq> []" and "\<not> HasPrefix (TrimSpace tok) [hash]"
proof -
  from assms have ne: "TrimSpace (removeInlineComment (TrimSpace tok)) \<noteq> []"
    by (simp add: malformed_def Let_def)
  show "TrimSpace tok \<noteq> []"
    using ne by (auto simp: removeInlineComment_Nil)
  show "\<not> HasPrefix (TrimSpace tok) [hash]"
    using ne by (auto simp: removeInlineComment_hash)
qed

lemma lineStep_malformed:
  "malformed tok \<Longrightarrow>
   lineStep p osenv n result tok =
     Inl (ParseErrorOnLine (n + 1) (InvalidLineFormat (removeInlineComment (TrimSpace tok))))"
proof -
  assume m: "malformed tok"
  then have "parseLine (TrimSpace tok) = Inl (InvalidLineFormat (removeInlineComment (TrimSpace tok)))"
    by (simp add: parseLine_error malformed_def Let_def)
  then show ?thesis
    using malformed_not_skipped [OF m] by (simp add: lineStep_def Let_def)
qed

lemma lineStep_wellformed:
  "\<not> malformed tok \<Longrightarrow> \<exists>r. lineStep p osenv n result tok = Inr r"
proof -
  assume m: "\<not> malformed tok"
  show ?thesis
  proof (cases "TrimSpace tok = [] \<or> HasPrefix (TrimSpace tok) [hash]")
    case True
    then show ?thesis by (auto simp: lineStep_def Let_def)
  next
    case False
    show ?thesis
    proof (cases "parseLine (TrimSpace tok)")
      case (Inl err)
      then have "malformed tok" by (simp add: parseLine_error malformed_def Let_def)
      with m show ?thesis by simp
    next
      case (Inr kv)
      then show ?thesis using False by (cases kv) (auto simp: lineStep_def Let_def)
    qed
  qed
qed

lemma parseLoop_first_malformed:
  assumes "i < length toks" and "malformed (toks ! i)" and "\<forall>j < i. \<not> malformed (toks ! j)"
  shows "parseLoop p osenv n result toks =
         Inl (ParseErrorOnLine (n + i + 1)
               (InvalidLineFormat (removeInlineComment (TrimSpace (toks ! i)))))"
  using assms
proof (induction toks arbitrary: i n result)
  case Nil
  then show ?case by simp
next
  case (Cons t ts)
  show ?case
  proof (cases i)
    case 0
    with Cons.prems(2) show ?thesis
      by (simp add: parseLoop_Cons lineStep_malformed)
  next
    case (Suc k)
    with Cons.prems(3) have "\<not> malformed t" by auto
    then obtain r where r: "lineStep p osenv n result t = Inr r"
      using lineStep_wellformed by blast
    have "parseLoop p osenv (n + 1) r ts =
          Inl (ParseErrorOnLine (n + 1 + k + 1)
                (InvalidLineFormat (removeInlineComment (TrimSpace (ts ! k)))))"
      using Cons.prems Suc by (intro Cons.IH) auto
    then show ?thesis using r Suc by (simp add: parseLoop_Cons)
  qed
qed

lemma scanTokens_take:
  "i < length ls \<Longrightarrow> \<forall>j \<le> i. length (ls ! j) < MaxScanTokenSize \<Longrightarrow>
   take (Suc i) (fst (scanTokens ls)) = map dropCR (take (Suc i) ls)"
proof (induction ls arbitrary: i)
  case Nil
  then show ?case by simp
next
  case (Cons l ls)
  from Cons.prems(2) have l: "length l < MaxScanTokenSize" by force
  show ?case
  proof (cases i)
    case 0
    then show ?thesis using l by simp
  next
    case (Suc k)
    have b: "\<forall>j \<le> k. length (ls ! j) < MaxScanTokenSize"
    proof (intro allI impI)
      fix j assume "j \<le> k"
      then have "Suc j \<le> i" using Suc by simp
      with Cons.prems(2) have "length ((l # ls) ! Suc j) < MaxScanTokenSize" by blast
      then show "length (ls ! j) < MaxScanTokenSize" by simp
    qed
    have a: "k < length ls" using Cons.prems(1) Suc by simp
    have "take (Suc k) (fst (scanTokens ls)) = map dropCR (take (Suc k) ls)"
      using a b by (rule Cons.IH)
    then show ?thesis using l Suc by simp
  qed
qed

lemma scanTokens_nth:
  assumes "i < length ls" and "\<forall>j \<le> i. length (ls ! j) < MaxScanTokenSize"
  shows "i < length (fst (scanTokens ls))"
    and "\<forall>j \<le> i. fst (scanTokens ls) ! j = dropCR (ls ! j)"
proof -
  let ?toks = "fst (scanTokens ls)"
  have t: "take (Suc i) ?toks = map dropCR (take (Suc i) ls)"
    using assms by (rule scanTokens_take)
  have "length (take (Suc i) ?toks) = Suc i"
    using assms(1) by (simp add: t)
  then show len: "i < length ?toks" by simp
  show "\<forall>j \<le> i. ?toks ! j = dropCR (ls ! j)"
  proof (intro allI impI)
    fix j assume j: "j \<le> i"
    then have "?toks ! j = take (Suc i) ?toks ! j" by simp
    also have "\<dots> = dropCR (ls ! j)" using j assms(1) by (simp add: t)
    finally show "?toks ! j = dropCR (ls ! j)" .
  qed
qed

lemma rawLines_Nil: "rawLines [] = []"
  by (simp add: rawLines.simps)

lemma rawLines_line:
  "newline \<notin> set l \<Longrightarrow> rawLines (l @ newline # rest) = l # rawLines rest"
proof -
  assume "newline \<notin> set l"
  then have a: "\<forall>c \<in> set l. c \<noteq> newline" by auto
  have t: "takeWhile (\<lambda>c. c \<noteq> newline) (l @ newline # rest) = l"
    and d: "dropWhile (\<lambda>c. c \<noteq> newline) (l @ newline # rest) = newline # rest"
    using a by (simp_all add: takeWhile_until dropWhile_until)
  show ?thesis
    by (subst rawLines.simps) (simp add: t d)
qed

lemma rawLines_last:
  "l \<noteq> [] \<Longrightarrow> newline \<notin> set l \<Longrightarrow> rawLines l = [l]"
proof -
  assume a: "l \<noteq> []" "newline \<notin> set l"
  then have b: "\<forall>c \<in> set l. c \<noteq> newline" by auto
  have t: "takeWhile (\<lambda>c. c \<noteq> newline) l = l" and d: "dropWhile (\<lambda>c. c \<noteq> newline) l = []"
    using b by (simp_all add: takeWhile_all dropWhile_all)
  show ?thesis
    using a(1) by (subst rawLines.simps) (simp add: t d rawLines_Nil)
qed

text \<open>
  C3, as stated, fails on an input with a line of 64 KiB or more before the malformed one:
  the scanner stops at the long line with \<^verbatim>\<open>bufio.ErrTooLong\<close>, the loop never reaches the
  malformed line, and \<^verbatim>\<open>Parse\<close> returns the error of \<^verbatim>\<open>scanner.Err()\<close>, which carries no line
  number. Here the second line \<^verbatim>\<open>B C\<close> is malformed and the first has 65538 bytes.
\<close>

theorem C3_too_long_line_counterexample:
  "malformed ''B C'' \<and>
   rawLines (''A='' @ replicate 65536 (CHR ''x'') @ [newline] @ ''B C'') ! 1 = ''B C'' \<and>
   Unmarshal Map.empty (''A='' @ replicate 65536 (CHR ''x'') @ [newline] @ ''B C'') =
     Inl (ErrorReadingInput ErrTooLong)"
proof -
  define big where "big = ''A='' @ replicate 65536 (CHR ''x'')"
  have len: "length big = 65538" by (simp add: big_def)
  have nl: "newline \<notin> set big" by (simp add: big_def)
  have m: "malformed ''B C''" by code_simp
  have rl: "rawLines (big @ newline # ''B C'') = [big, ''B C'']"
    using nl by (simp add: rawLines_line rawLines_last)
  have "scanTokens [big, ''B C''] = ([], Some ErrTooLong)"
    by (simp add: len MaxScanTokenSize_def)
  then have "Unmarshal Map.empty (big @ newline # ''B C'') = Inl (ErrorReadingInput ErrTooLong)"
    by (simp add: Unmarshal_def Parse_def NewScanner_def rl parseLoop_Nil)
  moreover have "big @ newline # ''B C'' = ''A='' @ replicate 65536 (CHR ''x'') @ [newline] @ ''B C''"
    by (simp add: big_def)
  ultimately show ?thesis using m rl by (simp)
qed

text \<open>
  C3, amended. When no line up to and including the first malformed one reaches the
  scanner's limit of 64 KiB, \<^verbatim>\<open>Parse\<close> returns the error of that line with its 1-based
  physical line number, blank lines and comment lines counted, and returns no map: the
  entries of the lines before are not returned. This holds with expansion on or off and
  whatever follows the line.
\<close>

theorem C3_fail_fast_line_number:
  assumes "i < length (rawLines data)"
    and "\<forall>j \<le> i. length (rawLines data ! j) < MaxScanTokenSize"
    and "malformed (dropCR (rawLines data ! i))"
    and "\<forall>j < i. \<not> malformed (dropCR (rawLines data ! j))"
  shows "Parse p osenv (NewScanner data) =
         Inl (ParseErrorOnLine (i + 1)
               (InvalidLineFormat (removeInlineComment (TrimSpace (dropCR (rawLines data ! i))))))"
proof -
  let ?toks = "fst (NewScanner data)"
  have len: "i < length ?toks" and nth: "\<forall>j \<le> i. ?toks ! j = dropCR (rawLines data ! j)"
    using scanTokens_nth [OF assms(1,2)] by (simp_all add: NewScanner_def)
  have "parseLoop p osenv 0 Map.empty ?toks =
        Inl (ParseErrorOnLine (0 + i + 1) (InvalidLineFormat (removeInlineComment (TrimSpace (?toks ! i)))))"
    using len nth assms(3,4) by (intro parseLoop_first_malformed) auto
  then show ?thesis using nth by (simp add: Parse_def)
qed

theorem C3_fail_fast_line_number_witness:
  "Parse NewParser Map.empty
     (NewScanner (''A=1'' @ [newline] @ ''# c'' @ [newline, newline] @ ''INVALID LINE FORMAT'' @
                  [newline] @ ''B=2'')) =
     Inl (ParseErrorOnLine 4 (InvalidLineFormat ''INVALID LINE FORMAT''))"
proof -
  let ?data = "''A=1'' @ [newline] @ ''# c'' @ [newline, newline] @ ''INVALID LINE FORMAT'' @
               [newline] @ ''B=2''"
  have rl: "rawLines ?data = [''A=1'', ''# c'', [], ''INVALID LINE FORMAT'', ''B=2'']"
    using rawLines_line [of "''A=1''" "''# c'' @ [newline, newline] @ ''INVALID LINE FORMAT'' @ [newline] @ ''B=2''"]
      rawLines_line [of "''# c''" "[newline] @ ''INVALID LINE FORMAT'' @ [newline] @ ''B=2''"]
      rawLines_line [of "[]" "''INVALID LINE FORMAT'' @ [newline] @ ''B=2''"]
      rawLines_line [of "''INVALID LINE FORMAT''" "''B=2''"]
      rawLines_last [of "''B=2''"]
    by simp
  note rl = rl [simplified]
  have m0: "\<not> malformed ''A=1''" by code_simp
  have m1: "\<not> malformed ''# c''" by code_simp
  have m2: "\<not> malformed []" by code_simp
  have m3: "malformed ''INVALID LINE FORMAT''" by code_simp
  have t: "removeInlineComment (TrimSpace ''INVALID LINE FORMAT'') = ''INVALID LINE FORMAT''"
    by code_simp
  have before: "\<forall>j < 3. \<not> malformed (dropCR (rawLines ?data ! j))"
  proof (intro allI impI)
    fix j :: nat assume "j < 3"
    then have "j = 0 \<or> j = 1 \<or> j = 2" by auto
    then show "\<not> malformed (dropCR (rawLines ?data ! j))"
      using m0 m1 m2 by (auto simp: rl dropCR_def)
  qed
  have short: "\<forall>j \<le> 3. length (rawLines ?data ! j) < MaxScanTokenSize"
  proof (intro allI impI)
    fix j :: nat assume "j \<le> 3"
    then have "j = 0 \<or> j = 1 \<or> j = 2 \<or> j = 3" by auto
    then show "length (rawLines ?data ! j) < MaxScanTokenSize"
      by (auto simp: rl MaxScanTokenSize_def)
  qed
  have bad: "malformed (dropCR (rawLines ?data ! 3))"
    using m3 by (simp add: rl dropCR_def)
  have i: "3 < length (rawLines ?data)" by (simp add: rl)
  show ?thesis
    using C3_fail_fast_line_number [OF i short bad before, of NewParser Map.empty] t
    by (simp add: rl dropCR_def)
qed

lemma scanTokens_stop:
  "i < length ls \<Longrightarrow> MaxScanTokenSize \<le> length (ls ! i) \<Longrightarrow>
   \<forall>j < i. length (ls ! j) < MaxScanTokenSize \<Longrightarrow>
   scanTokens ls = (map dropCR (take i ls), Some ErrTooLong)"
proof (induction ls arbitrary: i)
  case Nil
  then show ?case by simp
next
  case (Cons l ls)
  show ?case
  proof (cases i)
    case 0
    with Cons.prems show ?thesis by simp
  next
    case (Suc k)
    from Cons.prems(3) Suc have l: "length l < MaxScanTokenSize" by force
    have b: "\<forall>j < k. length (ls ! j) < MaxScanTokenSize"
    proof (intro allI impI)
      fix j assume "j < k"
      then have "Suc j < i" using Suc by simp
      with Cons.prems(3) have "length ((l # ls) ! Suc j) < MaxScanTokenSize" by blast
      then show "length (ls ! j) < MaxScanTokenSize" by simp
    qed
    have "scanTokens ls = (map dropCR (take k ls), Some ErrTooLong)"
      using Cons.prems(1,2) Suc b by (intro Cons.IH) simp_all
    then show ?thesis using l Suc by simp
  qed
qed

lemma parseLoop_wellformed:
  "\<forall>t \<in> set toks. \<not> malformed t \<Longrightarrow> \<exists>r. parseLoop p osenv n result toks = Inr r"
proof (induction toks arbitrary: n result)
  case Nil
  then show ?case by (simp add: parseLoop_Nil)
next
  case (Cons t ts)
  then have "\<not> malformed t" by simp
  then obtain r where "lineStep p osenv n result t = Inr r"
    using lineStep_wellformed by blast
  moreover obtain r' where "parseLoop p osenv (n + 1) r ts = Inr r'"
    using Cons by fastforce
  ultimately show ?case by (simp add: parseLoop_Cons)
qed

text \<open>
  The other error of \<^verbatim>\<open>Parse\<close>: a line of 64 KiB or more with no malformed line before it
  gives the error of the scanner, with no line number and no map.
\<close>

lemma Parse_line_too_long:
  assumes "i < length (rawLines data)" and "MaxScanTokenSize \<le> length (rawLines data ! i)"
    and "\<forall>j < i. length (rawLines data ! j) < MaxScanTokenSize \<and>
                  \<not> malformed (dropCR (rawLines data ! j))"
  shows "Parse p osenv (NewScanner data) = Inl (ErrorReadingInput ErrTooLong)"
proof -
  have sc: "NewScanner data = (map dropCR (take i (rawLines data)), Some ErrTooLong)"
    unfolding NewScanner_def using assms by (intro scanTokens_stop) auto
  have "\<forall>t \<in> set (map dropCR (take i (rawLines data))). \<not> malformed t"
    using assms(1,3) by (auto simp: in_set_conv_nth)
  then obtain r where "parseLoop p osenv 0 Map.empty (map dropCR (take i (rawLines data))) = Inr r"
    using parseLoop_wellformed by blast
  then show ?thesis by (simp add: Parse_def sc)
qed

section \<open>The round trip\<close>

lemma rawLines_Join:
  "\<forall>l \<in> set ls. l \<noteq> [] \<and> newline \<notin> set l \<Longrightarrow> rawLines (Join ls [newline]) = ls"
proof (induction ls "[newline]" rule: Join.induct)
  case 1
  then show ?case by (simp add: rawLines_Nil)
next
  case (2 l)
  then show ?case by (simp add: rawLines_last)
next
  case (3 l l' ls)
  then show ?case by (simp add: rawLines_line)
qed

lemma plainValue_chars:
  "plainValue v \<Longrightarrow> c \<in> set v \<Longrightarrow>
   c \<noteq> newline \<and> c \<noteq> cr \<and> c \<noteq> hash \<and> c \<noteq> squote \<and> c \<noteq> dquote \<and> c \<noteq> dollar"
  by (auto simp: plainValue_def list_all_iff quoteTrigger_def)

lemma formatEnvLine_plain:
  "v \<noteq> [] \<Longrightarrow> plainValue v \<Longrightarrow> formatEnvLine k v = k @ CHR ''='' # v"
  by (simp add: formatEnvLine_encodeEntry encodeEntry_def)

lemma formatEnvLine_empty: "formatEnvLine k [] = k @ CHR ''='' # dquote # [] @ [dquote]"
  by (simp add: formatEnvLine_encodeEntry encodeEntry_def)

lemma formatEnvLine_shape:
  assumes "isIdentifier k" and "plainValue v"
  shows "formatEnvLine k v \<noteq> []" and "newline \<notin> set (formatEnvLine k v)"
    and "dropCR (formatEnvLine k v) = formatEnvLine k v"
proof -
  have kc: "\<forall>c \<in> set k. c \<noteq> newline"
    using isIdentifier_chars [OF assms(1)] identChar_facts(9) by blast
  show "formatEnvLine k v \<noteq> []"
    by (cases "v = []") (simp_all add: formatEnvLine_empty formatEnvLine_plain assms(2))
  show "newline \<notin> set (formatEnvLine k v)"
  proof (cases "v = []")
    case True
    then show ?thesis using kc by (auto simp: formatEnvLine_empty)
  next
    case False
    then show ?thesis
      using kc plainValue_chars [OF assms(2)] by (auto simp: formatEnvLine_plain assms(2))
  qed
  show "dropCR (formatEnvLine k v) = formatEnvLine k v"
  proof (cases "v = []")
    case True
    then show ?thesis by (simp add: formatEnvLine_empty dropCR_def)
  next
    case False
    then have "last (formatEnvLine k v) = last v"
      by (simp add: formatEnvLine_plain assms(2))
    moreover have "last v \<noteq> cr"
      using plainValue_chars [OF assms(2), of "last v"] False by simp
    ultimately show ?thesis by (simp add: dropCR_def)
  qed
qed

lemma parseLoop_formatEnvLine:
  assumes "isIdentifier k" and "plainValue v" and "TrimSpace v = v"
  shows "parseLoop NewParser osenv n result (formatEnvLine k v # rest) =
         parseLoop NewParser osenv (n + 1) (result(k \<mapsto> v)) rest"
proof (cases "v = []")
  case True
  have "parseLoop NewParser osenv n result ((k @ CHR ''='' # dquote # [] @ [dquote]) # rest) =
        parseLoop NewParser osenv (n + 1)
          (result(k \<mapsto> (if expandVars NewParser then expandVariables osenv (escapeDecode []) result
                         else escapeDecode []))) rest"
    using assms(1) by (intro parseLoop_double_quoted) simp_all
  then show ?thesis
    using True by (simp add: formatEnvLine_empty expandVariables_Nil)
next
  case False
  have ch: "\<forall>c \<in> set v. c \<noteq> newline \<and> c \<noteq> hash \<and> c \<noteq> squote \<and> c \<noteq> dquote"
    using plainValue_chars [OF assms(2)] by blast
  have "dollar \<notin> set v" using plainValue_chars [OF assms(2)] by blast
  then have ex: "expandVariables osenv v result = v" by (rule expandVariables_plain)
  have "parseLoop NewParser osenv n result ((k @ CHR ''='' # v) # rest) =
        parseLoop NewParser osenv (n + 1)
          (result(k \<mapsto> (if expandVars NewParser then expandVariables osenv v result else v))) rest"
    using assms(1) False assms(3) ch by (rule parseLoop_unquoted)
  then show ?thesis
    using False by (simp add: formatEnvLine_plain assms(2) ex)
qed

lemma parseLoop_marshalled:
  assumes "\<forall>k \<in> set ks. isIdentifier k \<and> plainValue (the (m k)) \<and> TrimSpace (the (m k)) = the (m k)"
  shows "parseLoop NewParser osenv n result (map (\<lambda>k. formatEnvLine k (the (m k))) ks) =
         Inr (foldl (\<lambda>r k. r(k \<mapsto> the (m k))) result ks)"
  using assms
proof (induction ks arbitrary: n result)
  case Nil
  then show ?case by (simp add: parseLoop_Nil)
next
  case (Cons k ks)
  from Cons.prems have k: "isIdentifier k" "plainValue (the (m k))" "TrimSpace (the (m k)) = the (m k)"
    and ks: "\<forall>k \<in> set ks. isIdentifier k \<and> plainValue (the (m k)) \<and> TrimSpace (the (m k)) = the (m k)"
    by simp_all
  have "parseLoop NewParser osenv n result (formatEnvLine k (the (m k)) # map (\<lambda>k. formatEnvLine k (the (m k))) ks) =
        parseLoop NewParser osenv (n + 1) (result(k \<mapsto> the (m k))) (map (\<lambda>k. formatEnvLine k (the (m k))) ks)"
    using k by (rule parseLoop_formatEnvLine)
  also have "\<dots> = Inr (foldl (\<lambda>r k. r(k \<mapsto> the (m k))) (result(k \<mapsto> the (m k))) ks)"
    using ks by (rule Cons.IH)
  finally show ?case by (simp only: list.map foldl_Cons)
qed

lemma foldl_update_apply:
  "foldl (\<lambda>r k. r(k \<mapsto> f k)) result ks x = (if x \<in> set ks then Some (f x) else result x)"
  by (induction ks arbitrary: result) auto

lemma foldl_update_all:
  assumes "set ks = dom m"
  shows "foldl (\<lambda>r k. r(k \<mapsto> the (m k))) Map.empty ks = m"
proof
  fix x
  show "foldl (\<lambda>r k. r(k \<mapsto> the (m k))) Map.empty ks x = m x"
    using assms by (cases "m x") (auto simp: foldl_update_apply)
qed

text \<open>
  C1, as stated, fails. A value that ends (or starts) with a form feed, a vertical tab or
  a Unicode space holds none of the nine characters, so it is written unquoted, and
  \<^verbatim>\<open>strings.TrimSpace\<close> removes that white space when the line is parsed: the value \<^verbatim>\<open>v\<close>
  followed by a form feed comes back as \<^verbatim>\<open>v\<close>. And a line of 64 KiB or more is not read
  back at all: the scanner stops with \<^verbatim>\<open>bufio.ErrTooLong\<close>.
\<close>

theorem C1_round_trip_counterexample:
  "isIdentifier ''K'' \<and> plainValue [CHR ''v'', formfeed] \<and>
   Marshal [''K'' \<mapsto> [CHR ''v'', formfeed]] = Inr (''K=v'' @ [formfeed]) \<and>
   Unmarshal Map.empty (''K=v'' @ [formfeed]) = Inr [''K'' \<mapsto> ''v''] \<and>
   [''K'' \<mapsto> ''v''] \<noteq> [''K'' \<mapsto> [CHR ''v'', formfeed]] \<and>
   plainValue (replicate 65536 (CHR ''x'')) \<and>
   Marshal [''K'' \<mapsto> replicate 65536 (CHR ''x'')] = Inr (''K='' @ replicate 65536 (CHR ''x'')) \<and>
   Unmarshal Map.empty (''K='' @ replicate 65536 (CHR ''x'')) = Inl (ErrorReadingInput ErrTooLong)"
proof -
  have k: "isIdentifier ''K''" by (simp add: ident_eval)
  have p1: "plainValue [CHR ''v'', formfeed]" by (simp add: plainValue_def quoteTrigger_def)
  have m1: "Marshal [''K'' \<mapsto> [CHR ''v'', formfeed]] = Inr (''K=v'' @ [formfeed])"
    using p1 by (simp add: Marshal_def formatEnvLine_plain)
  have sc: "NewScanner (''K=v'' @ [formfeed]) = ([''K=v'' @ [formfeed]], None)"
    by (simp add: scan_eval)
  have tr: "TrimSpace (''K=v'' @ [formfeed]) = ''K=v''" by (simp add: trim_eval)
  have "parseLoop NewParser Map.empty 0 Map.empty ((''K'' @ CHR ''='' # ''v'') # []) =
        parseLoop NewParser Map.empty (0 + 1)
          (Map.empty(''K'' \<mapsto> (if expandVars NewParser then expandVariables Map.empty ''v'' Map.empty else ''v''))) []"
    by (rule parseLoop_unquoted) (simp_all add: ident_eval trim_eval)
  then have step: "lineStep NewParser Map.empty 0 Map.empty ''K=v'' = Inr [''K'' \<mapsto> ''v'']"
    by (simp add: parseLoop_Cons parseLoop_Nil expandVariables_plain NewParser_def split: sum.splits)
  have "lineStep NewParser Map.empty 0 Map.empty (''K=v'' @ [formfeed]) =
        lineStep NewParser Map.empty 0 Map.empty ''K=v''"
    using tr by (simp add: lineStep_def trim_eval)
  with step have "parseLoop NewParser Map.empty 0 Map.empty [''K=v'' @ [formfeed]] = Inr [''K'' \<mapsto> ''v'']"
    by (simp add: parseLoop_Cons parseLoop_Nil)
  with sc have u1: "Unmarshal Map.empty (''K=v'' @ [formfeed]) = Inr [''K'' \<mapsto> ''v'']"
    by (rule Unmarshal_lines)
  have ne: "[''K'' \<mapsto> ''v''] \<noteq> [''K'' \<mapsto> [CHR ''v'', formfeed]]"
  proof
    assume "[''K'' \<mapsto> ''v''] = [''K'' \<mapsto> [CHR ''v'', formfeed]]"
    then have "[''K'' \<mapsto> ''v''] ''K'' = [''K'' \<mapsto> [CHR ''v'', formfeed]] ''K''" by (rule arg_cong)
    then show False by simp
  qed
  define big where "big = replicate 65536 (CHR ''x'')"
  have len: "length big = 65536" and nl: "newline \<notin> set big" and ne2: "big \<noteq> []"
    by (auto simp: big_def)
  have p2: "plainValue big" by (simp add: big_def plainValue_def list_all_iff quoteTrigger_def)
  have m2: "Marshal [''K'' \<mapsto> big] = Inr (''K='' @ big)"
    using p2 ne2 by (simp add: Marshal_def formatEnvLine_plain)
  have "rawLines (''K='' @ big) = [''K='' @ big]"
    using nl by (intro rawLines_last) auto
  moreover have "scanTokens [''K='' @ big] = ([], Some ErrTooLong)"
    by (simp add: len MaxScanTokenSize_def)
  ultimately have u2: "Unmarshal Map.empty (''K='' @ big) = Inl (ErrorReadingInput ErrTooLong)"
    by (simp add: Unmarshal_def Parse_def NewScanner_def parseLoop_Nil)
  from k p1 m1 u1 ne p2 m2 u2 show ?thesis unfolding big_def by simp
qed

text \<open>
  C1, amended. For every finite map whose keys are identifiers and whose values hold none
  of space, tab, line feed, carriage return, double quote, single quote, backslash,
  \<^verbatim>\<open>#\<close> and \<^verbatim>\<open>$\<close>, and are left unchanged by \<^verbatim>\<open>strings.TrimSpace\<close> (they neither start nor end
  with a vertical tab, a form feed or a Unicode space), and whose encoded lines are shorter
  than 64 KiB, parsing the encoded text with expansion enabled succeeds and returns the
  map, whatever the process environment.
\<close>

theorem C1_round_trip:
  assumes fin: "finite (dom m)"
    and keys: "\<forall>k \<in> dom m. isIdentifier k"
    and vals: "\<forall>v \<in> ran m. plainValue v \<and> TrimSpace v = v"
    and short: "\<forall>k \<in> dom m. length (formatEnvLine k (the (m k))) < MaxScanTokenSize"
  shows "\<exists>text. Marshal m = Inr text \<and> Unmarshal osenv text = Inr m"
proof -
  let ?ks = "sorted_list_of_set (dom m)"
  let ?lines = "map (\<lambda>k. formatEnvLine k (the (m k))) ?ks"
  have set_ks: "set ?ks = dom m" using fin by simp
  have ok: "\<forall>k \<in> set ?ks. isIdentifier k \<and> plainValue (the (m k)) \<and> TrimSpace (the (m k)) = the (m k)"
  proof
    fix k assume "k \<in> set ?ks"
    then have k: "k \<in> dom m" using set_ks by simp
    then obtain v where v: "m k = Some v" by auto
    then have "v \<in> ran m" by (auto simp: ran_def)
    with vals keys k v show "isIdentifier k \<and> plainValue (the (m k)) \<and> TrimSpace (the (m k)) = the (m k)"
      by auto
  qed
  have ms: "Marshal m = Inr (Join ?lines [newline])"
    by (simp add: Marshal_def)
  have "\<forall>l \<in> set ?lines. l \<noteq> [] \<and> newline \<notin> set l"
    using ok formatEnvLine_shape(1,2) by auto
  then have rl: "rawLines (Join ?lines [newline]) = ?lines" by (rule rawLines_Join)
  have "\<forall>l \<in> set ?lines. length l < MaxScanTokenSize"
    using short set_ks by auto
  then have "scanTokens ?lines = (map dropCR ?lines, None)" by (rule scanTokens_short)
  moreover have "map dropCR ?lines = ?lines"
    using ok formatEnvLine_shape(3) by (simp add: map_idI)
  ultimately have sc: "NewScanner (Join ?lines [newline]) = (?lines, None)"
    by (simp add: NewScanner_def rl)
  have "parseLoop NewParser osenv 0 Map.empty ?lines =
        Inr (foldl (\<lambda>r k. r(k \<mapsto> the (m k))) Map.empty ?ks)"
    using ok by (rule parseLoop_marshalled)
  then have "parseLoop NewParser osenv 0 Map.empty ?lines = Inr m"
    by (simp only: foldl_update_all [OF set_ks])
  with sc have "Unmarshal osenv (Join ?lines [newline]) = Inr m" by (rule Unmarshal_lines)
  with ms show ?thesis by blast
qed


theorem C1_round_trip_witness:
  "Marshal [''A'' \<mapsto> ''x1'', ''B'' \<mapsto> [], ''C_2'' \<mapsto> ''a=b:c''] =
     Inr (''A=x1'' @ [newline] @ ''B='' @ [dquote, dquote, newline] @ ''C_2=a=b:c'') \<and>
   Unmarshal Map.empty (''A=x1'' @ [newline] @ ''B='' @ [dquote, dquote, newline] @ ''C_2=a=b:c'') =
     Inr [''A'' \<mapsto> ''x1'', ''B'' \<mapsto> [], ''C_2'' \<mapsto> ''a=b:c'']"
proof -
  let ?m = "[''A'' \<mapsto> ''x1'', ''B'' \<mapsto> [], ''C_2'' \<mapsto> ''a=b:c'']"
  have fin: "finite (dom ?m)" by simp
  have keys: "\<forall>k \<in> dom ?m. isIdentifier k" by (simp add: ident_eval)
  have vals: "\<forall>v \<in> ran ?m. plainValue v \<and> TrimSpace v = v"
    by (simp add: ran_map_upd plainValue_def quoteTrigger_def trim_eval)
  have short: "\<forall>k \<in> dom ?m. length (formatEnvLine k (the (?m k))) < MaxScanTokenSize"
    by (simp add: formatEnvLine_encodeEntry encodeEntry_def plainValue_def quoteTrigger_def
          MaxScanTokenSize_def)
  have ms: "Marshal ?m = Inr (''A=x1'' @ [newline] @ ''B='' @ [dquote, dquote, newline] @ ''C_2=a=b:c'')"
    by (simp add: Marshal_def formatEnvLine_encodeEntry encodeEntry_def plainValue_def quoteTrigger_def)
  from C1_round_trip [OF fin keys vals short, of Map.empty] ms show ?thesis by auto
qed

end
